theory Spec2Isabelle
  imports Complex_Main "HOL-Library.Word" "HOL-Library.Product_Lexorder" "HOL-Library.Monad_Syntax"
    "HOL-Library.Multiset"
begin

section \<open>Data model\<close>

text \<open>
  \<^verbatim>\<open>unsigned int\<close> is a 32-bit word (arithmetic wraps), \<^verbatim>\<open>unsigned long long\<close> a 64-bit
  word.  The signed \<^verbatim>\<open>int\<close> deltas and depths are mathematical integers: signed overflow is
  undefined in C++, so the model describes every run whose behaviour is defined.
\<close>

type_synonym u32 = "32 word"
type_synonym u64 = "64 word"

text \<open>
  A \<^verbatim>\<open>double\<close> is modelled by its exact real value together with the special values
  of IEEE arithmetic; rounding is not modelled.  In \<^verbatim>\<open>percentileFromHist\<close> and
  \<^verbatim>\<open>trimmedMeanFromHist\<close>, for arguments up to 100, the quantities the code branches on
  (the index, whether the fraction is zero, the number of skipped bases) are the same with and
  without rounding.  In the warning classification the sums and products are the real ones.
\<close>

datatype dbl = Fin real | PInf | MInf | NaN

definition of_u32 :: "u32 \<Rightarrow> dbl" where
  "of_u32 w = Fin (real (unat w))"

text \<open>Division of two non-negative integers converted to \<^verbatim>\<open>double\<close>.\<close>

definition ddiv :: "nat \<Rightarrow> nat \<Rightarrow> dbl" where
  "ddiv a b = (if b = 0 then (if a = 0 then NaN else PInf) else Fin (real a / real b))"

fun dadd :: "dbl \<Rightarrow> dbl \<Rightarrow> dbl" where
  "dadd (Fin a) (Fin b) = Fin (a + b)"
| "dadd NaN _ = NaN"
| "dadd _ NaN = NaN"
| "dadd PInf MInf = NaN"
| "dadd MInf PInf = NaN"
| "dadd PInf _ = PInf"
| "dadd _ PInf = PInf"
| "dadd MInf _ = MInf"
| "dadd _ MInf = MInf"

fun dscale :: "dbl \<Rightarrow> real \<Rightarrow> dbl" where
  "dscale (Fin a) c = Fin (a * c)"
| "dscale NaN c = NaN"
| "dscale PInf c = (if 0 < c then PInf else if c < 0 then MInf else NaN)"
| "dscale MInf c = (if 0 < c then MInf else if c < 0 then PInf else NaN)"

fun dless :: "dbl \<Rightarrow> dbl \<Rightarrow> bool" where
  "dless (Fin a) (Fin b) = (a < b)"
| "dless NaN _ = False"
| "dless _ NaN = False"
| "dless PInf _ = False"
| "dless _ MInf = False"
| "dless _ PInf = True"
| "dless MInf _ = True"

text \<open>
  \<^verbatim>\<open>std::map<unsigned int, unsigned int>\<close>: an association list kept in ascending key
  order, which is the order the code iterates in.
\<close>

type_synonym hist = "(u32 \<times> u32) list"

text \<open>\<^verbatim>\<open>hist[k] += v\<close>: a missing key is created with count 0 first.\<close>

fun hist_add :: "u32 \<Rightarrow> u32 \<Rightarrow> hist \<Rightarrow> hist" where
  "hist_add k v [] = [(k, v)]"
| "hist_add k v ((k', c) # h) =
     (if k < k' then (k, v) # (k', c) # h
      else if k = k' then (k', c + v) # h
      else (k', c) # hist_add k v h)"

text \<open>\<^verbatim>\<open>hist.insert({k, v})\<close>: does nothing when the key is present.\<close>

fun hist_insert :: "u32 \<Rightarrow> u32 \<Rightarrow> hist \<Rightarrow> hist" where
  "hist_insert k v [] = [(k, v)]"
| "hist_insert k v ((k', c) # h) =
     (if k < k' then (k, v) # (k', c) # h
      else if k = k' then (k', c) # h
      else (k', c) # hist_insert k v h)"

text \<open>The loop \<^verbatim>\<open>for (auto h : hist) size += h.second\<close>, in 32-bit arithmetic.\<close>

definition hist_total :: "hist \<Rightarrow> u32" where
  "hist_total h = sum_list (map snd h)"

text \<open>The same total as an unbounded number: what the 32-bit sum would be without wrap-around.\<close>

fun hist_mass :: "hist \<Rightarrow> nat" where
  "hist_mass [] = 0"
| "hist_mass ((k, c) # h) = unat c + hist_mass h"



section \<open>Histogram statistics (CoverageBlocks)\<close>

text \<open>
  The locals \<^verbatim>\<open>size\<close>, \<^verbatim>\<open>total\<close> and \<^verbatim>\<open>count\<close> of the source are written \<open>sz\<close>,
  \<open>tot\<close> and \<open>cnt\<close>, and the fractional part of \<^verbatim>\<open>percentile_frac\<close> is \<open>fr\<close>.

  \<^verbatim>\<open>meanFromHist\<close>: the product \<^verbatim>\<open>h.first * h.second\<close> is a 32-bit product, widened
  when it is added to the 64-bit total.
\<close>

fun mean_loop :: "u64 \<Rightarrow> u32 \<Rightarrow> hist \<Rightarrow> u64 \<times> u32" where
  "mean_loop tot cnt [] = (tot, cnt)"
| "mean_loop tot cnt ((k, c) # h) = mean_loop (tot + ucast (k * c)) (cnt + c) h"

definition meanFromHist :: "hist \<Rightarrow> dbl" where
  "meanFromHist hist =
     (case mean_loop 0 0 hist of (tot, cnt) \<Rightarrow> ddiv (unat tot) (unat cnt))"

text \<open>
  \<^verbatim>\<open>percentileFromHist\<close>.  In the interpolation branch the code increments the iterator
  and dereferences it without testing for \<^verbatim>\<open>hist.end()\<close>; that read is the fault
  \<open>PastTheEnd\<close>.
\<close>

datatype fault = PastTheEnd

fun pct_loop :: "u32 \<Rightarrow> real \<Rightarrow> u32 \<Rightarrow> hist \<Rightarrow> fault + dbl" where
  "pct_loop idx fr cnt [] = Inr NaN"
| "pct_loop idx fr cnt ((k, c) # h) =
     (if cnt + c \<ge> idx then
        (if cnt + c > idx \<or> fr = 0 then Inr (of_u32 k)
         else (case h of
                 [] \<Rightarrow> Inl PastTheEnd
               | (k1, c1) # h' \<Rightarrow>
                   Inr (Fin (real (unat k) - fr * real (unat k) + fr * real (unat k1)))))
      else pct_loop idx fr (cnt + c) h)"

definition percentileFromHist :: "hist \<Rightarrow> u32 \<Rightarrow> fault + dbl" where
  "percentileFromHist hist percentile =
     (let sz = hist_total hist;
          percentile_frac = real (unat (sz + 1)) * real (unat percentile) / 100;
          percentile_index = (word_of_int \<lfloor>percentile_frac\<rfloor> :: u32);
          fr = percentile_frac - of_int \<lfloor>percentile_frac\<rfloor>
      in pct_loop percentile_index fr 0 hist)"




section \<open>Warning classification (CoverageBlocksIRFinder::WriteOutput)\<close>

text \<open>
  The final column of a region row.  The splice and crossing counts are \<^verbatim>\<open>unsigned int\<close>,
  the trimmed mean is a \<^verbatim>\<open>double\<close>; \<^verbatim>\<open>min(SPleft, SPright)+2\<close> is a 32-bit sum.
\<close>

definition warning_label :: "u32 \<Rightarrow> dbl \<Rightarrow> u32 \<Rightarrow> u32 \<Rightarrow> u32 \<Rightarrow> u32 \<Rightarrow> string" where
  "warning_label JCexact intronTrimmedMean JCleft JCright SPleft SPright =
     (if dless (dadd (of_u32 JCexact) intronTrimmedMean) (Fin 10) then ''LowCover''
      else if JCexact < 4 then ''LowSplicing''
      else if dless (dscale (of_u32 JCexact) (133333333 / 100000000)) (of_u32 (max JCleft JCright))
        then ''MinorIsoform''
      else if (dless (dadd intronTrimmedMean (Fin 2)) (of_u32 (max SPleft SPright)) \<and>
               dless (dscale intronTrimmedMean (3 / 2)) (of_u32 (max SPleft SPright)))
            \<or> (dless (of_u32 (min SPleft SPright + 2)) intronTrimmedMean \<and>
               dless (dscale (of_u32 (min SPleft SPright)) (3 / 2)) intronTrimmedMean)
        then ''NonUniformIntronCover''
      else ''-'')"

section \<open>Coverage map (FragmentsMap)\<close>

text \<open>
  A depth event or run-length segment is a \<^verbatim>\<open>std::pair<unsigned int, int>\<close>; a channel holds
  one vector of them per chromosome.
\<close>

type_synonym event = "u32 \<times> int"
type_synonym chrvec = "event list list"

text \<open>
  Modelled from the spec: the declaration of \<^verbatim>\<open>chr_entry\<close> (a header that is not part of the
  sources at hand); the fields are the ones the code reads.
\<close>

record chr_entry =
  refID :: u32
  chr_name :: string
  chr_len :: int

text \<open>
  Modelled from the spec: the member declarations of class \<^verbatim>\<open>FragmentsMap\<close> (same header).
  The three C arrays of length 3 are functions from the channel index (only 0, 1 and 2 are
  ever used); \<^verbatim>\<open>frag_count\<close> is taken to be a 32-bit counter.
\<close>

record FragmentsMap =
  chrs :: "chr_entry list"
  chrName_vec_final :: "nat \<Rightarrow> chrvec"
  chrName_vec_new :: "nat \<Rightarrow> chrvec"
  temp_chrName_vec_new :: "nat \<Rightarrow> chrvec"
  frag_count :: u32
  final_is_sorted :: bool

text \<open>
  Modelled from the spec: the declaration of class \<^verbatim>\<open>FragmentBlocks\<close> (another header); the
  fields are the ones \<^verbatim>\<open>ProcessBlocks\<close> reads, the per-read arrays as lists.
\<close>

record FragmentBlocks =
  readCount :: int
  readStart :: "u32 list"
  rStarts :: "u32 list list"
  rLens :: "u32 list list"
  chr_id :: u32
  direction :: bool

text \<open>
  \<^verbatim>\<open>std::out_of_range\<close> thrown by \<^verbatim>\<open>vector::at\<close> is the result \<open>None\<close>.  The loop
  \<^verbatim>\<open>for (j = 0; j < 3; j++)\<close> over the channels is unrolled.
\<close>

definition for3 :: "(nat \<Rightarrow> 'a \<Rightarrow> 'a option) \<Rightarrow> 'a \<Rightarrow> 'a option" where
  "for3 body s = do { s0 \<leftarrow> body 0 s; s1 \<leftarrow> body 1 s0; body 2 s1 }"

text \<open>
  \<^verbatim>\<open>FragmentsMap::ChrMapUpdate\<close>: every buffer of every channel is reset to one vector
  \<open>[(0, 0)]\<close> per chromosome, and the chromosomes are appended to \<^verbatim>\<open>chrs\<close>.
\<close>

definition ChrMapUpdate :: "chr_entry list \<Rightarrow> FragmentsMap \<Rightarrow> FragmentsMap" where
  "ChrMapUpdate chrmap m =
     (let empty_vector = [(0, 0)];
          fresh = (\<lambda>old j. if j < 3 then replicate (length chrmap) empty_vector else old j)
      in m\<lparr>chrName_vec_final := fresh (chrName_vec_final m),
            chrName_vec_new := fresh (chrName_vec_new m),
            temp_chrName_vec_new := fresh (temp_chrName_vec_new m),
            chrs := chrs m @ chrmap\<rparr>)"

text \<open>
  \<^verbatim>\<open>FragmentsMap::ProcessBlocks\<close>.  For every block of every read the code pushes
  \<open>(start, +1)\<close> and \<open>(start + len, -1)\<close>, first on the stranded channel and then on
  channel 2; \<open>block_events\<close> is that sequence of pairs, which each of the two channels
  receives in this order.  The positions are 32-bit sums.  \<^verbatim>\<open>.at(chr_id)\<close> is only
  reached when there is something to push.  Reading a per-read array beyond its length is
  undefined behaviour in the source and does not occur for a well-formed fragment; no
  statement below depends on what the model yields there.
\<close>

definition block_events :: "FragmentBlocks \<Rightarrow> event list" where
  "block_events blocks =
     concat (map (\<lambda>index.
       concat (map (\<lambda>j.
         [(readStart blocks ! index + rStarts blocks ! index ! j, 1),
          (readStart blocks ! index + rStarts blocks ! index ! j + rLens blocks ! index ! j, - 1)])
         [0..<length (rLens blocks ! index)]))
       [0..<nat (readCount blocks)])"

definition push_at :: "chrvec \<Rightarrow> nat \<Rightarrow> event list \<Rightarrow> chrvec option" where
  "push_at v i es =
     (if es = [] then Some v
      else if i < length v then Some (v[i := v ! i @ es])
      else None)"

text \<open>
  \<^verbatim>\<open>FragmentsMap::sort_and_collapse_temp\<close>.  \<open>collapse_loop\<close> is the walk over one sorted
  ingest buffer: events at one position are summed, a sum is pushed when the position changes
  (unless it is zero), and the last sum is pushed unconditionally.  \<^verbatim>\<open>std::sort\<close> on pairs
  is the lexicographic \<open>sort\<close>.  \<open>collapse_channel\<close> is the loop over the chromosomes
  of one channel, with \<^verbatim>\<open>refID\<close> counting; \<^verbatim>\<open>chrName_vec_new[j].at(refID)\<close> is reached
  for every non-empty buffer.  Every buffer that was processed is left empty.
\<close>

fun collapse_loop :: "u32 \<Rightarrow> int \<Rightarrow> event list \<Rightarrow> event list" where
  "collapse_loop loci accum [] = [(loci, accum)]"
| "collapse_loop loci accum ((p, d) # es) =
     (if p \<noteq> loci then
        (if accum \<noteq> 0 then [(loci, accum)] else []) @ collapse_loop p d es
      else collapse_loop loci (accum + d) es)"

fun collapse_channel :: "nat \<Rightarrow> chrvec \<Rightarrow> chrvec \<Rightarrow> chrvec option" where
  "collapse_channel refid [] nw = Some nw"
| "collapse_channel refid (itChr # rest) nw =
     (if itChr = [] then collapse_channel (Suc refid) rest nw
      else if refid < length nw
        then collapse_channel (Suc refid) rest
               (nw[refid := nw ! refid @ collapse_loop 0 0 (sort itChr)])
      else None)"

definition temp_body :: "nat \<Rightarrow> FragmentsMap \<Rightarrow> FragmentsMap option" where
  "temp_body j m = do {
       nw \<leftarrow> collapse_channel 0 (temp_chrName_vec_new m j) (chrName_vec_new m j);
       Some (m\<lparr>chrName_vec_new := (chrName_vec_new m)(j := nw),
                temp_chrName_vec_new :=
                  (temp_chrName_vec_new m)(j := map (\<lambda>itChr. []) (temp_chrName_vec_new m j))\<rparr>)
     }"

definition sort_and_collapse_temp :: "FragmentsMap \<Rightarrow> FragmentsMap option" where
  "sort_and_collapse_temp = for3 temp_body"

text \<open>
  \<open>push_blocks\<close> is the body of \<^verbatim>\<open>ProcessBlocks\<close> up to and including
  \<^verbatim>\<open>frag_count += 1\<close>; \<^verbatim>\<open>ProcessBlocks\<close> then compacts when the counter is a multiple of
  1000000.
\<close>

definition push_blocks :: "FragmentBlocks \<Rightarrow> FragmentsMap \<Rightarrow> FragmentsMap option" where
  "push_blocks blocks m = do {
     let es = block_events blocks;
     let d = (if direction blocks then 1 else 0);
     stranded \<leftarrow> push_at (temp_chrName_vec_new m d) (unat (chr_id blocks)) es;
     unstranded \<leftarrow> push_at (temp_chrName_vec_new m 2) (unat (chr_id blocks)) es;
     Some (m\<lparr>temp_chrName_vec_new := (temp_chrName_vec_new m)(d := stranded, 2 := unstranded),
              frag_count := frag_count m + 1\<rparr>)
   }"

definition ProcessBlocks :: "FragmentBlocks \<Rightarrow> FragmentsMap \<Rightarrow> FragmentsMap option" where
  "ProcessBlocks blocks m = do {
     m' \<leftarrow> push_blocks blocks m;
     if frag_count m' mod 1000000 = 0 then sort_and_collapse_temp m' else Some m'
   }"

text \<open>
  \<^verbatim>\<open>FragmentsMap::sort_and_collapse_final\<close>.  The progressors of the walk over one sorted
  accumulated-delta buffer are \<open>(loci, old_loci, depth, old_depth)\<close> and the destination
  vector; \<open>final_step\<close> is the loop body, \<open>final_finish\<close> the two pushes after the loop.
  \<open>final_unit\<close> is one iteration \<open>k\<close> of the flattened loop over channel and chromosome
  (the destination is emptied and refilled, the source is cleared), \<open>final_loop\<close> runs the
  iterations in order.
\<close>

type_synonym progressors = "u32 \<times> u32 \<times> int \<times> int \<times> event list"

fun final_step :: "progressors \<Rightarrow> event \<Rightarrow> progressors" where
  "final_step (loci, old_loci, depth, old_depth, dest) (p, d) =
     (if p \<noteq> loci then
        (if depth \<noteq> old_depth
         then (p, loci, depth + d, (if p = 0 then depth + d else depth),
               dest @ [(old_loci, old_depth)])
         else (p, old_loci, depth + d, (if p = 0 then depth + d else old_depth), dest))
      else (loci, old_loci, depth + d, (if p = 0 then depth + d else old_depth), dest))"

fun final_finish :: "progressors \<Rightarrow> event list" where
  "final_finish (loci, old_loci, depth, old_depth, dest) =
     dest @ [(old_loci, old_depth)] @ (if depth \<noteq> old_depth then [(loci, depth)] else [])"

definition collapse_final :: "event list \<Rightarrow> event list" where
  "collapse_final itChr = final_finish (foldl final_step (0, 0, 0, 0, []) (sort itChr))"

definition final_unit :: "FragmentsMap \<Rightarrow> nat \<Rightarrow> FragmentsMap option" where
  "final_unit m k =
     (let j = k div length (chrs m);
          i = k - j * length (chrs m)
      in if i < length (chrName_vec_new m j) \<and> i < length (chrName_vec_final m j)
         then Some (m\<lparr>chrName_vec_final :=
                        (chrName_vec_final m)
                          (j := (chrName_vec_final m j)[i := collapse_final (chrName_vec_new m j ! i)]),
                      chrName_vec_new :=
                        (chrName_vec_new m)(j := (chrName_vec_new m j)[i := [] ])\<rparr>)
         else None)"

fun final_loop :: "nat list \<Rightarrow> FragmentsMap \<Rightarrow> FragmentsMap option" where
  "final_loop [] m = Some m"
| "final_loop (k # ks) m = (case final_unit m k of None \<Rightarrow> None | Some m' \<Rightarrow> final_loop ks m')"

definition sort_and_collapse_final :: "FragmentsMap \<Rightarrow> FragmentsMap option" where
  "sort_and_collapse_final m =
     (if \<not> final_is_sorted m then do {
        m1 \<leftarrow> sort_and_collapse_temp m;
        m2 \<leftarrow> final_loop [0..<3 * length (chrs m1)] m1;
        Some (m2\<lparr>final_is_sorted := True\<rparr>)
      } else Some m)"

text \<open>
  \<^verbatim>\<open>FragmentsMap::Combine\<close>.  \<open>append_loop\<close> is the inner loop over the chromosomes
  (\<^verbatim>\<open>.at(i)\<close> on both operands, then \<^verbatim>\<open>insert\<close> at the end), \<open>append_channels\<close> the loop
  over the three channels.  The result is the pair of \<^verbatim>\<open>*this\<close> and the child, both
  changed by their compaction.  No branch raises an error of its own.
\<close>

fun append_loop :: "nat list \<Rightarrow> chrvec \<Rightarrow> chrvec \<Rightarrow> chrvec option" where
  "append_loop [] a b = Some a"
| "append_loop (i # is) a b =
     (if i < length a \<and> i < length b then append_loop is (a[i := a ! i @ b ! i]) b else None)"

definition append_channels ::
  "nat \<Rightarrow> (nat \<Rightarrow> chrvec) \<Rightarrow> (nat \<Rightarrow> chrvec) \<Rightarrow> (nat \<Rightarrow> chrvec) option" where
  "append_channels n mine theirs =
     for3 (\<lambda>j vec. do {
       v \<leftarrow> append_loop [0..<n] (vec j) (theirs j);
       Some (vec(j := v)) }) mine"

definition Combine :: "FragmentsMap \<Rightarrow> FragmentsMap \<Rightarrow> (FragmentsMap \<times> FragmentsMap) option" where
  "Combine self child = do {
     s \<leftarrow> sort_and_collapse_temp self;
     c \<leftarrow> sort_and_collapse_temp child;
     if \<not> final_is_sorted s \<and> \<not> final_is_sorted c then do {
       v \<leftarrow> append_channels (length (chrs s)) (chrName_vec_new s) (chrName_vec_new c);
       Some (s\<lparr>chrName_vec_new := v\<rparr>, c)
     } else if final_is_sorted s \<and> final_is_sorted c then do {
       v \<leftarrow> append_channels (length (chrs s)) (chrName_vec_final s) (chrName_vec_final c);
       Some (s\<lparr>chrName_vec_final := v, final_is_sorted := False\<rparr>, c)
     } else Some (s, c)
   }"

text \<open>
  \<^verbatim>\<open>FragmentsMap::updateCoverageHist\<close>.  \<^verbatim>\<open>std::upper_bound\<close> with the comparison on
  positions returns the first segment whose position is greater than \<open>start\<close> (the
  sequence is sorted by position).  \<open>step_back\<close> is the first \<^verbatim>\<open>while\<close> loop.
  \<open>cov_walk\<close> is the main loop, the iterator being the remaining suffix of the vector: the
  inner loop skips the segments at or before the cursor, and reaching the end of the vector
  charges the rest of the range to the current depth.  The key \<^verbatim>\<open>(unsigned int)depth\<close> is
  the depth reduced modulo \<open>2^32\<close>.
\<close>

definition upper_bound :: "event list \<Rightarrow> u32 \<Rightarrow> nat" where
  "upper_bound it_chr start = length (takeWhile (\<lambda>e. \<not> start < fst e) it_chr)"

fun step_back :: "event list \<Rightarrow> u32 \<Rightarrow> nat \<Rightarrow> nat" where
  "step_back it_chr start 0 = 0"
| "step_back it_chr start (Suc k) =
     (if fst (it_chr ! Suc k) > start then step_back it_chr start k else Suc k)"

function cov_walk :: "u32 \<Rightarrow> hist \<Rightarrow> int \<Rightarrow> u32 \<Rightarrow> event list \<Rightarrow> hist" where
  "cov_walk end hist depth cursor it_pos =
     (if cursor < end then
        (let it_pos' = dropWhile (\<lambda>e. fst e \<le> cursor) it_pos
         in if it_pos' = [] then hist_add (word_of_int depth) (end - cursor) hist
            else cov_walk end
                   (hist_add (word_of_int depth) (min (fst (hd it_pos')) end - cursor) hist)
                   (snd (hd it_pos')) (fst (hd it_pos')) it_pos')
      else hist)"
  by pat_completeness auto
termination
proof (relation "measure (\<lambda>(end, hist, depth, cursor, it_pos). unat end - unat cursor)")
  show "wf (measure (\<lambda>(end, hist, depth, cursor, it_pos). unat end - unat cursor))"
    by simp
next
  fix "end" :: u32 and hist :: hist and depth :: int and cursor :: u32
    and it_pos it_pos' :: "event list"
  assume lt: "cursor < end"
    and eq: "it_pos' = dropWhile (\<lambda>e. fst e \<le> cursor) it_pos"
    and ne: "it_pos' \<noteq> []"
  from eq ne have "\<not> fst (hd it_pos') \<le> cursor"
    using hd_dropWhile [of "\<lambda>e. fst e \<le> cursor" it_pos] by simp
  then have "unat cursor < unat (fst (hd it_pos'))"
    by (simp add: word_le_nat_alt)
  moreover from lt have "unat cursor < unat end"
    by (simp add: word_less_nat_alt)
  ultimately show "((end, hist_add (word_of_int depth) (min (fst (hd it_pos')) end - cursor) hist,
      snd (hd it_pos'), fst (hd it_pos'), it_pos'), (end, hist, depth, cursor, it_pos))
      \<in> measure (\<lambda>(end, hist, depth, cursor, it_pos). unat end - unat cursor)"
    by simp
qed

declare cov_walk.simps [simp del]

definition updateCoverageHist ::
  "FragmentsMap \<Rightarrow> hist \<Rightarrow> u32 \<Rightarrow> u32 \<Rightarrow> nat \<Rightarrow> u32 \<Rightarrow> hist" where
  "updateCoverageHist m hist start end dir refid =
     (if unat refid \<ge> length (chrName_vec_final m dir) then hist_insert 0 0 hist
      else
        (let it_chr = chrName_vec_final m dir ! unat refid;
             it_pos = upper_bound it_chr start
         in if it_pos = length it_chr then hist_add 0 (end - start) hist
            else
              (let it_pos = step_back it_chr start it_pos
               in cov_walk end hist (snd (it_chr ! it_pos)) start (drop it_pos it_chr))))"

text \<open>
  The chromosome lookup of \<^verbatim>\<open>CoverageBlocksIRFinder::WriteOutput\<close>: a name that is not
  registered gets the index \<^verbatim>\<open>chrs.size()\<close>, one past the per-chromosome vectors.
\<close>

definition lookup_refID :: "chr_entry list \<Rightarrow> string \<Rightarrow> u32" where
  "lookup_refID chrlist cur_chr =
     (case find (\<lambda>obj. chr_name obj = cur_chr) chrlist of
        Some it \<Rightarrow> refID it
      | None \<Rightarrow> of_nat (length chrlist))"

section \<open>Ingest schedules\<close>

text \<open>
  A run of a worker: fragments are ingested with \<^verbatim>\<open>ProcessBlocks\<close> (which compacts on its
  own every 1000000 fragments), and \<open>Compact\<close> is a call of \<^verbatim>\<open>sort_and_collapse_temp\<close>
  at that point of the run.  \<open>push_all\<close> ingests the same fragments and never compacts.
\<close>

datatype ingest_op = Process FragmentBlocks | Compact

fun run_ops :: "ingest_op list \<Rightarrow> FragmentsMap \<Rightarrow> FragmentsMap option" where
  "run_ops [] m = Some m"
| "run_ops (Process blocks # ops) m =
     (case ProcessBlocks blocks m of None \<Rightarrow> None | Some m' \<Rightarrow> run_ops ops m')"
| "run_ops (Compact # ops) m =
     (case sort_and_collapse_temp m of None \<Rightarrow> None | Some m' \<Rightarrow> run_ops ops m')"

fun fragments_of :: "ingest_op list \<Rightarrow> FragmentBlocks list" where
  "fragments_of [] = []"
| "fragments_of (Process blocks # ops) = blocks # fragments_of ops"
| "fragments_of (Compact # ops) = fragments_of ops"

fun push_all :: "FragmentBlocks list \<Rightarrow> FragmentsMap \<Rightarrow> FragmentsMap option" where
  "push_all [] m = Some m"
| "push_all (blocks # bs) m =
     (case push_blocks blocks m of None \<Rightarrow> None | Some m' \<Rightarrow> push_all bs m')"

definition ingest :: "FragmentBlocks list \<Rightarrow> FragmentsMap \<Rightarrow> FragmentsMap option" where
  "ingest bs m = run_ops (map Process bs) m"

section \<open>Notions used to state and prove the properties\<close>

text \<open>
  A map is well formed when each of its three buffers has, in each channel, one vector per
  registered chromosome: the state \<^verbatim>\<open>ChrMapUpdate\<close> sets up.
\<close>

definition wf_map :: "FragmentsMap \<Rightarrow> bool" where
  "wf_map m =
     list_all (\<lambda>j. length (temp_chrName_vec_new m j) = length (chrs m) \<and>
                    length (chrName_vec_new m j) = length (chrs m) \<and>
                    length (chrName_vec_final m j) = length (chrs m)) [0, 1, 2]"

text \<open>
  The net delta of a buffer at a position, the depth it gives at a position (the sum of the
  deltas at or before it), the positions after 0 where the depth changes, and the run-length
  sequence these determine.
\<close>

definition net :: "event list \<Rightarrow> u32 \<Rightarrow> int" where
  "net xs p = sum_list (map snd (filter (\<lambda>e. fst e = p) xs))"

definition cum :: "event list \<Rightarrow> u32 \<Rightarrow> int" where
  "cum xs p = sum_list (map snd (filter (\<lambda>e. fst e \<le> p) xs))"

definition chg :: "event list \<Rightarrow> u32 set" where
  "chg xs = {p. p \<noteq> 0 \<and> net xs p \<noteq> 0}"

definition rle :: "event list \<Rightarrow> event list" where
  "rle xs = (0, cum xs 0) # map (\<lambda>p. (p, cum xs p)) (sorted_list_of_set (chg xs))"

text \<open>The net delta a map holds for a channel and chromosome, in both delta buffers.\<close>

definition cnet :: "FragmentsMap \<Rightarrow> nat \<Rightarrow> nat \<Rightarrow> u32 \<Rightarrow> int" where
  "cnet m j i p = net (temp_chrName_vec_new m j ! i) p + net (chrName_vec_new m j ! i) p"

text \<open>The net delta one fragment adds to a channel and chromosome.\<close>

definition contrib :: "FragmentBlocks \<Rightarrow> nat \<Rightarrow> nat \<Rightarrow> u32 \<Rightarrow> int" where
  "contrib blocks j i p =
     (if i = unat (chr_id blocks) \<and> (j = (if direction blocks then 1 else 0) \<or> j = 2)
      then net (block_events blocks) p else 0)"

text \<open>What compaction makes of an ingest buffer \<open>t\<close> and an accumulated-delta buffer \<open>n\<close>.\<close>

definition compacted :: "event list \<Rightarrow> event list \<Rightarrow> event list" where
  "compacted t n = n @ (if t \<noteq> [] then collapse_loop 0 0 (sort t) else [])"

text \<open>The invariant of the finalising walk after the sorted events \<open>ys\<close>.\<close>

definition fin_inv :: "event list \<Rightarrow> progressors \<Rightarrow> bool" where
  "fin_inv ys s =
     (case s of (loci, old_loci, depth, old_depth, dest) \<Rightarrow>
        (\<forall>e\<in>set ys. fst e \<le> loci) \<and>
        (ys = [] \<longrightarrow> loci = 0) \<and> (ys \<noteq> [] \<longrightarrow> loci \<in> fst ` set ys) \<and>
        depth = sum_list (map snd ys) \<and>
        (loci = 0 \<longrightarrow> old_loci = 0 \<and> old_depth = depth \<and> dest = []) \<and>
        (loci \<noteq> 0 \<longrightarrow>
           old_depth = sum_list (map snd (filter (\<lambda>e. fst e < loci) ys)) \<and>
           dest @ [(old_loci, old_depth)] = rle (filter (\<lambda>e. fst e < loci) ys)))"

text \<open>
  A canonical run-length sequence: strictly increasing positions, and no two consecutive
  segments of equal depth.
\<close>

definition run_canonical :: "event list \<Rightarrow> bool" where
  "run_canonical segs \<longleftrightarrow> sorted_wrt (<) (map fst segs) \<and> distinct_adj (map snd segs)"

definition walk_inv :: "progressors \<Rightarrow> bool" where
  "walk_inv s =
     (case s of (loci, old_loci, depth, old_depth, dest) \<Rightarrow>
        run_canonical (dest @ [(old_loci, old_depth)]) \<and>
        (old_loci < loci \<or> (loci = 0 \<and> old_loci = 0 \<and> depth = old_depth \<and> dest = [])))"

section \<open>Example data\<close>

definition ex_chrmap :: "chr_entry list" where
  "ex_chrmap = [\<lparr>refID = 0, chr_name = ''chr1'', chr_len = 1000\<rparr>]"

definition ex_empty :: FragmentsMap where
  "ex_empty = \<lparr>chrs = [], chrName_vec_final = (\<lambda>j. []), chrName_vec_new = (\<lambda>j. []),
      temp_chrName_vec_new = (\<lambda>j. []), frag_count = 0, final_is_sorted = False\<rparr>"

text \<open>Two fragments of one block each: \<open>[100, 200)\<close> forward and \<open>[150, 200)\<close> reverse.\<close>

definition ex_fragA :: FragmentBlocks where
  "ex_fragA = \<lparr>readCount = 1, readStart = [100], rStarts = [ [0] ], rLens = [ [100] ],
      chr_id = 0, direction = True\<rparr>"

definition ex_fragB :: FragmentBlocks where
  "ex_fragB = \<lparr>readCount = 1, readStart = [150], rStarts = [ [0] ], rLens = [ [50] ],
      chr_id = 0, direction = False\<rparr>"

definition ex_accumulating :: FragmentsMap where
  "ex_accumulating = \<lparr>chrs = ex_chrmap, chrName_vec_final = (\<lambda>j. [ [(0, 0)] ]),
      chrName_vec_new = (\<lambda>j. [ [(0, 0), (100, 1)] ]),
      temp_chrName_vec_new = (\<lambda>j. [ [(200, - 1), (150, 1), (200, - 1)] ]),
      frag_count = 2, final_is_sorted = False\<rparr>"

definition ex_finalized :: FragmentsMap where
  "ex_finalized = \<lparr>chrs = ex_chrmap,
      chrName_vec_final = (\<lambda>j. [ [(0, 0), (100, 1), (150, 2), (200, 0)] ]),
      chrName_vec_new = (\<lambda>j. [ [] ]), temp_chrName_vec_new = (\<lambda>j. [ [] ]),
      frag_count = 2, final_is_sorted = True\<rparr>"

section \<open>Histogram statistics: properties\<close>


lemma unat_sum_list_u32:
  "unat (sum_list ws :: u32) = sum_list (map unat ws) mod 2 ^ 32"
  by (induction ws) (simp_all add: unat_word_ariths mod_add_right_eq)

lemma hist_total_unat:
  assumes "hist_mass h < 2 ^ 32"
  shows "unat (hist_total h) = hist_mass h"
proof -
  have "sum_list (map unat (map snd h)) = hist_mass h"
    by (induction h) auto
  with assms show ?thesis
    by (simp add: hist_total_def unat_sum_list_u32)
qed



lemma pct_loop_exhausted:
  assumes "unat cnt + hist_mass h < unat idx"
  shows "pct_loop idx fr cnt h = Inr NaN"
  using assms
proof (induction h arbitrary: cnt)
  case Nil
  then show ?case by simp
next
  case (Cons e h)
  obtain k c where e: "e = (k, c)" by (cases e)
  from Cons.prems e have lt: "unat cnt + unat c < unat idx"
    by simp
  have "unat idx < 2 ^ 32"
    using unsigned_less [of idx] by simp
  with lt have sum: "unat (cnt + c) = unat cnt + unat c"
    by (simp add: unat_word_ariths)
  have below: "\<not> cnt + c \<ge> idx"
    using lt sum by (simp add: word_le_nat_alt)
  have "unat (cnt + c) + hist_mass h < unat idx"
    using Cons.prems e sum by simp
  from Cons.IH [OF this] below e show ?case by simp
qed






lemma product_wrap_example: "meanFromHist [(65536, 65536)] = Fin 0"
  by (simp add: meanFromHist_def ddiv_def)

text \<open>
  C9 (as the code has it).  For a non-empty histogram, percentile 0 returns the depth of the
  lowest bin.  Percentile 100 asks for index \<open>size + 1\<close>, which the running count never
  reaches: the bins are exhausted and the result is the no-data value NaN (stated for
  totals below \<open>2^32 - 1\<close>, where the 32-bit counters do not wrap).
\<close>

theorem percentile_boundaries:
  "percentileFromHist ((k, c) # h) 0 = Inr (of_u32 k) \<and>
   (hist_mass ((k, c) # h) < 2 ^ 32 - 1 \<longrightarrow>
      percentileFromHist ((k, c) # h) 100 = Inr NaN)"
proof -
  have zero: "percentileFromHist ((k, c) # h) 0 = Inr (of_u32 k)"
    by (simp add: percentileFromHist_def)
  have hundred: "percentileFromHist ((k, c) # h) 100 = Inr NaN"
    if m: "hist_mass ((k, c) # h) < 2 ^ 32 - 1"
  proof -
    let ?hs = "(k, c) # h"
    from m have lt: "hist_mass ?hs < 2 ^ 32" by simp
    have tot: "unat (hist_total ?hs) = hist_mass ?hs"
      by (rule hist_total_unat [OF lt])
    have "unat (hist_total ?hs) + 1 < 2 ^ 32"
      using m tot by simp
    then have succ: "unat (hist_total ?hs + 1) = hist_mass ?hs + 1"
      using tot by (simp add: unat_word_ariths)
    have pf: "real (unat (hist_total ?hs + 1)) * real (unat (100 :: u32)) / 100
                = real (unat (hist_total ?hs + 1))"
      by simp
    have fl: "\<lfloor>real (unat (hist_total ?hs + 1))\<rfloor> = int (unat (hist_total ?hs + 1))"
      by (simp only: floor_of_nat)
    have idx: "(word_of_int \<lfloor>real (unat (hist_total ?hs + 1)) * real (unat (100 :: u32)) / 100\<rfloor> :: u32)
                 = hist_total ?hs + 1"
      unfolding pf fl by simp
    have fr: "real (unat (hist_total ?hs + 1)) * real (unat (100 :: u32)) / 100
                - of_int \<lfloor>real (unat (hist_total ?hs + 1)) * real (unat (100 :: u32)) / 100\<rfloor> = 0"
      unfolding pf fl by simp
    have "unat (0 :: u32) + hist_mass ?hs < unat (hist_total ?hs + 1)"
      using succ by simp
    then have "pct_loop (hist_total ?hs + 1) 0 0 ?hs = Inr NaN"
      by (rule pct_loop_exhausted)
    then show ?thesis
      unfolding percentileFromHist_def Let_def idx fr .
  qed
  from zero hundred show ?thesis by simp
qed

theorem percentile_boundaries_witness:
  "percentileFromHist [(5, 1)] 0 = Inr (Fin 5) \<and> percentileFromHist [(5, 1)] 100 = Inr NaN"
  using percentile_boundaries [of 5 1 "[]"] by (simp add: of_u32_def)

theorem percentile_100_counterexample:
  "percentileFromHist [(5, 1)] 100 = Inr NaN"
  by (simp add: percentileFromHist_def hist_total_def word_le_nat_alt)

text \<open>
  C10.  The interpolation branch does not check that a next bin exists.  With one bin of
  depth 5 holding two bases, percentile 75 has index 2 and fraction 1/4: the running count
  equals the index at the last bin and the code reads past it.
\<close>

theorem percentile_interpolation_past_end:
  "percentileFromHist [(5, 2)] 75 = Inl PastTheEnd"
  by (simp add: percentileFromHist_def hist_total_def word_le_nat_alt word_less_nat_alt)

text \<open>
  C6 (as the code has it).  The low-cover test comes first: a region with exact splice count 2
  is labelled LowCover when \<open>JCexact + intronTrimmedMean < 10\<close> and LowSplicing otherwise,
  whatever the other counts are.
\<close>

theorem warning_JCexact_2:
  "warning_label 2 tm JCleft JCright SPleft SPright =
     (if dless (dadd (Fin 2) tm) (Fin 10) then ''LowCover'' else ''LowSplicing'')"
  by (simp add: warning_label_def of_u32_def)

theorem warning_JCexact_2_witness:
  "warning_label 2 (Fin 8) 0 0 0 0 = ''LowSplicing'' \<and> warning_label 2 NaN 7 0 3 0 = ''LowSplicing''
   \<and> warning_label 2 (Fin (15 / 2)) 0 0 0 0 = ''LowCover''"
  using warning_JCexact_2 [of "Fin 8" 0 0 0 0] warning_JCexact_2 [of NaN 7 0 3 0]
    warning_JCexact_2 [of "Fin (15 / 2)" 0 0 0 0]
  by simp

theorem warning_JCexact_2_counterexample:
  "warning_label 2 (Fin 0) 0 0 0 0 \<noteq> ''LowSplicing''"
  by (simp add: warning_label_def of_u32_def)

section \<open>Coverage map: properties\<close>

lemma net_Nil [simp]: "net [] p = 0"
  by (simp add: net_def)

lemma net_Cons [simp]: "net ((q, d) # xs) p = (if q = p then d else 0) + net xs p"
  by (simp add: net_def)

lemma net_append [simp]: "net (xs @ ys) p = net xs p + net ys p"
  by (simp add: net_def)

lemma cum_Nil [simp]: "cum [] p = 0"
  by (simp add: cum_def)

lemma cum_Cons [simp]: "cum ((q, d) # xs) p = (if q \<le> p then d else 0) + cum xs p"
  by (simp add: cum_def)

lemma net_nonzero_pos: "net xs p \<noteq> 0 \<Longrightarrow> p \<in> fst ` set xs"
  by (induction xs) (auto split: if_splits)

lemma finite_chg [simp]: "finite (chg xs)"
proof (rule finite_subset)
  show "chg xs \<subseteq> fst ` set xs"
    by (auto simp: chg_def dest: net_nonzero_pos)
qed simp

lemma cum_as_net:
  assumes "finite S" and "fst ` set xs \<subseteq> S"
  shows "cum xs p = (\<Sum>q\<in>{q \<in> S. q \<le> p}. net xs q)"
  using assms(2)
proof (induction xs)
  case Nil
  then show ?case by simp
next
  case (Cons e xs)
  obtain a d where e: "e = (a, d)" by (cases e)
  with Cons.prems have a: "a \<in> S" and sub: "fst ` set xs \<subseteq> S"
    by auto
  have fin: "finite {q \<in> S. q \<le> p}"
    using assms(1) by simp
  have "(\<Sum>q\<in>{q \<in> S. q \<le> p}. (if a = q then d else 0)) = (if a \<le> p then d else 0)"
    using fin a by (simp add: sum.delta')
  then show ?case
    using Cons.IH [OF sub] e by (simp add: sum.distrib)
qed

lemma net_eq_cum_eq:
  assumes "net xs = net ys"
  shows "cum xs = cum ys"
proof
  fix p
  let ?S = "fst ` set xs \<union> fst ` set ys"
  have "cum xs p = (\<Sum>q\<in>{q \<in> ?S. q \<le> p}. net xs q)"
    by (rule cum_as_net) auto
  also have "\<dots> = (\<Sum>q\<in>{q \<in> ?S. q \<le> p}. net ys q)"
    using assms by simp
  also have "\<dots> = cum ys p"
    by (rule cum_as_net [symmetric]) auto
  finally show "cum xs p = cum ys p" .
qed

lemma rle_cong:
  assumes "net xs = net ys"
  shows "rle xs = rle ys"
  by (simp only: rle_def chg_def assms net_eq_cum_eq [OF assms])

lemma sum_split_max:
  assumes "\<forall>e\<in>set ys. fst e \<le> L"
  shows "sum_list (map snd ys) = sum_list (map snd (filter (\<lambda>e. fst e < L) ys)) + net ys L"
  using assms
proof (induction ys)
  case Nil
  then show ?case by simp
next
  case (Cons e ys)
  obtain a d where e: "e = (a, d)" by (cases e)
  with Cons.prems have "a \<le> L" by simp
  then have "a < L \<or> a = L" by auto
  with Cons e show ?case by auto
qed

lemma sorted_list_of_set_snoc:
  fixes L :: "'a::linorder"
  assumes "finite A" and "\<forall>a\<in>A. a < L"
  shows "sorted_list_of_set (insert L A) = sorted_list_of_set A @ [L]"
proof (rule sorted_distinct_set_unique)
  show "sorted (sorted_list_of_set (insert L A))" by simp
  show "distinct (sorted_list_of_set (insert L A))" by simp
  show "sorted (sorted_list_of_set A @ [L])"
    using assms by (auto simp: sorted_append less_imp_le)
  show "distinct (sorted_list_of_set A @ [L])"
    using assms by auto
  have "finite (insert L A)"
    using assms(1) by simp
  then have "set (sorted_list_of_set (insert L A)) = insert L A"
    by (rule sorted_list_of_set.set_sorted_key_list_of_set)
  moreover have "set (sorted_list_of_set A) = A"
    using assms(1) by (rule sorted_list_of_set.set_sorted_key_list_of_set)
  ultimately show "set (sorted_list_of_set (insert L A)) = set (sorted_list_of_set A @ [L])"
    by simp
qed

lemma net_filter_below:
  "net (filter (\<lambda>e. fst e < L) ys) p = (if p < L then net ys p else 0)"
proof (induction ys)
  case Nil
  then show ?case by simp
next
  case (Cons e ys)
  obtain a d where "e = (a, d)" by (cases e)
  with Cons show ?case by auto
qed

lemma cum_filter_below:
  assumes "p < L"
  shows "cum (filter (\<lambda>e. fst e < L) ys) p = cum ys p"
proof (induction ys)
  case Nil
  then show ?case by simp
next
  case (Cons e ys)
  obtain a d where "e = (a, d)" by (cases e)
  with Cons assms show ?case by auto
qed

lemma rle_extend:
  assumes le: "\<forall>e\<in>set ys. fst e \<le> L" and L: "L \<noteq> 0"
  shows "rle ys = rle (filter (\<lambda>e. fst e < L) ys) @
    (if sum_list (map snd ys) \<noteq> sum_list (map snd (filter (\<lambda>e. fst e < L) ys))
     then [(L, sum_list (map snd ys))] else [])"
proof -
  define B where "B = filter (\<lambda>e. fst e < L) ys"
  have split: "sum_list (map snd ys) = sum_list (map snd B) + net ys L"
    unfolding B_def by (rule sum_split_max [OF le])
  have netB: "net B p = (if p < L then net ys p else 0)" for p
    unfolding B_def by (rule net_filter_below)
  have net_ys_above: "net ys p = 0" if "L < p" for p
  proof -
    have "filter (\<lambda>e. fst e = p) ys = []"
      using le that by (fastforce simp: filter_empty_conv)
    then show ?thesis by (simp add: net_def)
  qed
  have cumB: "cum B p = cum ys p" if "p < L" for p
    unfolding B_def using that by (rule cum_filter_below)
  have "filter (\<lambda>e. fst e \<le> L) ys = ys"
    using le by (simp add: filter_id_conv)
  then have cumL: "cum ys L = sum_list (map snd ys)"
    by (simp add: cum_def)
  show ?thesis
  proof (cases "net ys L = 0")
    case True
    have "net ys p = net B p" for p
    proof (cases "p < L")
      case True
      then show ?thesis by (simp add: netB)
    next
      case nlt: False
      show ?thesis
      proof (cases "p = L")
        case True
        with \<open>net ys L = 0\<close> show ?thesis by (simp add: netB)
      next
        case False
        with nlt have "L < p" by simp
        then show ?thesis
          using net_ys_above [of p] nlt by (simp add: netB)
      qed
    qed
    then have "net ys = net B" by (rule ext)
    then have "rle ys = rle B" by (rule rle_cong)
    moreover have "sum_list (map snd ys) = sum_list (map snd B)"
      using True split by simp
    ultimately show ?thesis unfolding B_def by simp
  next
    case False
    have in_B: "p \<in> chg B \<longleftrightarrow> p \<noteq> 0 \<and> p < L \<and> net ys p \<noteq> 0" for p
      by (simp add: chg_def netB)
    have in_ys: "p \<in> chg ys \<longleftrightarrow> p = L \<or> p \<in> chg B" for p
    proof (cases "p < L")
      case True
      then show ?thesis unfolding in_B by (auto simp: chg_def)
    next
      case nlt: False
      show ?thesis
      proof (cases "p = L")
        case True
        then show ?thesis unfolding in_B using False L by (auto simp: chg_def)
      next
        case False
        with nlt have "L < p" by simp
        then show ?thesis
          unfolding in_B using net_ys_above [of p] nlt False by (auto simp: chg_def)
      qed
    qed
    have chg: "chg ys = insert L (chg B)"
      using in_ys by blast
    have below: "\<forall>a\<in>chg B. a < L"
      by (simp add: in_B)
    have sl: "sorted_list_of_set (chg ys) = sorted_list_of_set (chg B) @ [L]"
      unfolding chg by (rule sorted_list_of_set_snoc [OF finite_chg below])
    have "0 < L" using L by (simp add: word_greater_zero_iff)
    then have cum0: "cum B 0 = cum ys 0" by (rule cumB)
    have set_B: "set (sorted_list_of_set (chg B)) = chg B"
      by (rule sorted_list_of_set.set_sorted_key_list_of_set) simp
    have mapeq: "map (\<lambda>p. (p, cum ys p)) (sorted_list_of_set (chg B))
        = map (\<lambda>p. (p, cum B p)) (sorted_list_of_set (chg B))"
    proof (rule map_cong [OF refl])
      fix p assume "p \<in> set (sorted_list_of_set (chg B))"
      with set_B below have "p < L" by blast
      then show "(p, cum ys p) = (p, cum B p)" by (simp add: cumB)
    qed
    have ne: "sum_list (map snd ys) \<noteq> sum_list (map snd B)"
      using False split by simp
    have "rle ys = ((0, cum ys 0) # map (\<lambda>p. (p, cum ys p)) (sorted_list_of_set (chg B)))
                     @ [(L, cum ys L)]"
      unfolding rle_def sl by simp
    also have "\<dots> = rle B @ [(L, sum_list (map snd ys))]"
      unfolding rle_def mapeq cum0 cumL ..
    finally show ?thesis
      using ne unfolding B_def by simp
  qed
qed

lemma rle_all_zero:
  assumes "\<forall>e\<in>set ys. fst e = 0"
  shows "rle ys = [(0, sum_list (map snd ys))]"
proof -
  have "chg ys = {}"
  proof (rule ccontr)
    assume "chg ys \<noteq> {}"
    then obtain p where "p \<noteq> 0" and "net ys p \<noteq> 0"
      by (auto simp: chg_def)
    from net_nonzero_pos [OF this(2)] assms \<open>p \<noteq> 0\<close> show False
      by auto
  qed
  moreover have "filter (\<lambda>e. fst e \<le> 0) ys = ys"
    using assms by (simp add: filter_id_conv)
  then have "cum ys 0 = sum_list (map snd ys)"
    by (simp add: cum_def)
  ultimately show ?thesis
    by (simp add: rle_def)
qed

lemma fin_invI:
  assumes "\<forall>e\<in>set ys. fst e \<le> loci"
    and "ys = [] \<Longrightarrow> loci = 0"
    and "ys \<noteq> [] \<Longrightarrow> loci \<in> fst ` set ys"
    and "depth = sum_list (map snd ys)"
    and "loci = 0 \<Longrightarrow> old_loci = 0 \<and> old_depth = depth \<and> dest = []"
    and "loci \<noteq> 0 \<Longrightarrow> old_depth = sum_list (map snd (filter (\<lambda>e. fst e < loci) ys))"
    and "loci \<noteq> 0 \<Longrightarrow> dest @ [(old_loci, old_depth)] = rle (filter (\<lambda>e. fst e < loci) ys)"
  shows "fin_inv ys (loci, old_loci, depth, old_depth, dest)"
  unfolding fin_inv_def prod.case using assms by blast

lemma fin_invD:
  assumes "fin_inv ys (loci, old_loci, depth, old_depth, dest)"
  shows "\<forall>e\<in>set ys. fst e \<le> loci"
    and "ys = [] \<Longrightarrow> loci = 0"
    and "ys \<noteq> [] \<Longrightarrow> loci \<in> fst ` set ys"
    and "depth = sum_list (map snd ys)"
    and "loci = 0 \<Longrightarrow> old_loci = 0"
    and "loci = 0 \<Longrightarrow> old_depth = depth"
    and "loci = 0 \<Longrightarrow> dest = []"
    and "loci \<noteq> 0 \<Longrightarrow> old_depth = sum_list (map snd (filter (\<lambda>e. fst e < loci) ys))"
    and "loci \<noteq> 0 \<Longrightarrow> dest @ [(old_loci, old_depth)] = rle (filter (\<lambda>e. fst e < loci) ys)"
  using assms unfolding fin_inv_def prod.case by blast+

lemma fin_inv_init: "fin_inv [] (0, 0, 0, 0, [])"
  by (rule fin_invI) simp_all

lemma fin_inv_finish:
  assumes "fin_inv ys s"
  shows "final_finish s = rle ys"
proof -
  obtain loci old_loci depth old_depth dest where s: "s = (loci, old_loci, depth, old_depth, dest)"
    by (cases s)
  note D = fin_invD [OF assms [unfolded s] ]
  show ?thesis
  proof (cases "loci = 0")
    case True
    from D(1) True have "\<forall>e\<in>set ys. fst e = 0" by simp
    then have "rle ys = [(0, sum_list (map snd ys))]"
      by (rule rle_all_zero)
    then show ?thesis
      unfolding s using D(4) D(5) [OF True] D(6) [OF True] D(7) [OF True] by simp
  next
    case False
    let ?B = "filter (\<lambda>e. fst e < loci) ys"
    have "final_finish s = (dest @ [(old_loci, old_depth)]) @
        (if depth \<noteq> old_depth then [(loci, depth)] else [])"
      unfolding s by simp
    also have "\<dots> = rle ?B @ (if sum_list (map snd ys) \<noteq> sum_list (map snd ?B)
        then [(loci, sum_list (map snd ys))] else [])"
      unfolding D(9) [OF False] unfolding D(8) [OF False] D(4) ..
    also have "\<dots> = rle ys"
      by (rule rle_extend [OF D(1) False, symmetric])
    finally show ?thesis .
  qed
qed

lemma fin_inv_step:
  assumes inv: "fin_inv ys s" and max: "\<forall>e\<in>set ys. fst e \<le> p"
  shows "fin_inv (ys @ [(p, d)]) (final_step s (p, d))"
proof -
  obtain loci old_loci depth old_depth dest where s: "s = (loci, old_loci, depth, old_depth, dest)"
    by (cases s)
  note D = fin_invD [OF inv [unfolded s] ]
  have lp: "loci \<le> p"
  proof (cases "ys = []")
    case True
    with D(2) show ?thesis by simp
  next
    case False
    from D(3) [OF False] max show ?thesis by auto
  qed
  have depth': "depth + d = sum_list (map snd (ys @ [(p, d)]))"
    using D(4) by simp
  show ?thesis
  proof (cases "p = loci")
    case True
    have same: "filter (\<lambda>e. fst e < loci) (ys @ [(p, d)]) = filter (\<lambda>e. fst e < loci) ys"
      using True by simp
    have step: "final_step s (p, d) =
        (loci, old_loci, depth + d, (if loci = 0 then depth + d else old_depth), dest)"
      unfolding s using True by simp
    show ?thesis
      unfolding step
    proof (rule fin_invI)
      show "\<forall>e\<in>set (ys @ [(p, d)]). fst e \<le> loci"
        using D(1) True by simp
      show "loci \<in> fst ` set (ys @ [(p, d)])"
        using True by simp
      show "depth + d = sum_list (map snd (ys @ [(p, d)]))"
        by (rule depth')
      show "old_loci = 0 \<and> (if loci = 0 then depth + d else old_depth) = depth + d \<and> dest = []"
        if "loci = 0"
        using that D(5) D(7) by simp
      show "(if loci = 0 then depth + d else old_depth) =
          sum_list (map snd (filter (\<lambda>e. fst e < loci) (ys @ [(p, d)])))" if "loci \<noteq> 0"
        unfolding same using that D(8) by simp
      show "dest @ [(old_loci, if loci = 0 then depth + d else old_depth)] =
          rle (filter (\<lambda>e. fst e < loci) (ys @ [(p, d)]))" if "loci \<noteq> 0"
        unfolding same using that D(9) by simp
    qed simp
  next
    case False
    with lp have lt: "loci < p" by simp
    have p0: "p \<noteq> 0"
    proof
      assume "p = 0"
      with lt show False by simp
    qed
    have "filter (\<lambda>e. fst e < p) ys = ys"
      unfolding filter_id_conv using D(1) lt by auto
    then have all: "filter (\<lambda>e. fst e < p) (ys @ [(p, d)]) = ys"
      by simp
    have goal: "fin_inv (ys @ [(p, d)]) (p, ol, depth + d, depth, ds)"
      if "ds @ [(ol, depth)] = rle ys" for ol ds
    proof (rule fin_invI)
      show "\<forall>e\<in>set (ys @ [(p, d)]). fst e \<le> p"
        using max by simp
      show "p \<in> fst ` set (ys @ [(p, d)])"
        by simp
      show "depth + d = sum_list (map snd (ys @ [(p, d)]))"
        by (rule depth')
      show "depth = sum_list (map snd (filter (\<lambda>e. fst e < p) (ys @ [(p, d)])))"
        unfolding all by (rule D(4))
      show "ds @ [(ol, depth)] = rle (filter (\<lambda>e. fst e < p) (ys @ [(p, d)]))"
        unfolding all by (rule that)
    qed (use p0 in simp_all)
    show ?thesis
    proof (cases "loci = 0")
      case True
      from D(1) True have "\<forall>e\<in>set ys. fst e = 0" by simp
      then have "rle ys = [(0, depth)]"
        unfolding D(4) by (rule rle_all_zero)
      then have "fin_inv (ys @ [(p, d)]) (p, 0, depth + d, depth, [])"
        by (intro goal) simp
      moreover have "final_step s (p, d) = (p, 0, depth + d, depth, [])"
        unfolding s using False p0 D(5) [OF True] D(6) [OF True] D(7) [OF True] by simp
      ultimately show ?thesis by simp
    next
      case nz: False
      let ?B = "filter (\<lambda>e. fst e < loci) ys"
      have ext: "rle ys = rle ?B @ (if sum_list (map snd ys) \<noteq> sum_list (map snd ?B)
          then [(loci, sum_list (map snd ys))] else [])"
        by (rule rle_extend [OF D(1) nz])
      show ?thesis
      proof (cases "depth = old_depth")
        case True
        then have "sum_list (map snd ys) = sum_list (map snd ?B)"
          using D(4) D(8) [OF nz] by simp
        with ext have "rle ys = rle ?B" by simp
        then have "dest @ [(old_loci, depth)] = rle ys"
          using D(9) [OF nz] True by simp
        then have "fin_inv (ys @ [(p, d)]) (p, old_loci, depth + d, depth, dest)"
          by (rule goal)
        moreover have "final_step s (p, d) = (p, old_loci, depth + d, depth, dest)"
          unfolding s using False True p0 by simp
        ultimately show ?thesis by simp
      next
        case ne: False
        then have "sum_list (map snd ys) \<noteq> sum_list (map snd ?B)"
          using D(4) D(8) [OF nz] by simp
        with ext have "rle ys = rle ?B @ [(loci, sum_list (map snd ys))]" by simp
        then have "(dest @ [(old_loci, old_depth)]) @ [(loci, depth)] = rle ys"
          using D(9) [OF nz] D(4) by simp
        then have "fin_inv (ys @ [(p, d)]) (p, loci, depth + d, depth, dest @ [(old_loci, old_depth)])"
          by (rule goal)
        moreover have "final_step s (p, d) = (p, loci, depth + d, depth, dest @ [(old_loci, old_depth)])"
          unfolding s using False ne p0 by simp
        ultimately show ?thesis by simp
      qed
    qed
  qed
qed

lemma fin_inv_foldl:
  assumes "sorted (map fst ys)"
  shows "fin_inv ys (foldl final_step (0, 0, 0, 0, []) ys)"
  using assms
proof (induction ys rule: rev_induct)
  case Nil
  show ?case by (simp add: fin_inv_init)
next
  case (snoc e ys)
  obtain p d where e: "e = (p, d)" by (cases e)
  from snoc.prems e have "sorted (map fst ys)" and "\<forall>x\<in>set ys. fst x \<le> p"
    by (auto simp: sorted_append)
  with snoc.IH e show ?case
    by (simp add: fin_inv_step)
qed

lemma net_mset_cong:
  assumes "mset xs = mset ys"
  shows "net xs = net ys"
proof
  fix p
  have *: "net zs p = sum_mset (image_mset snd (filter_mset (\<lambda>e. fst e = p) (mset zs)))" for zs
  proof -
    have "sum_list (map snd (filter (\<lambda>e. fst e = p) zs))
        = sum_mset (mset (map snd (filter (\<lambda>e. fst e = p) zs)))"
      by (simp only: sum_mset_sum_list)
    then show ?thesis
      by (simp add: net_def)
  qed
  show "net xs p = net ys p"
    unfolding * assms ..
qed

lemma sorted_fst_of_sorted:
  fixes xs :: "event list"
  shows "sorted xs \<Longrightarrow> sorted (map fst xs)"
proof (induction xs)
  case Nil
  then show ?case by simp
next
  case (Cons x xs)
  then have "\<forall>y\<in>set xs. fst x \<le> fst y"
    by (auto simp: less_eq_prod_def)
  with Cons show ?case by simp
qed

lemma sorted_fst_sort: "sorted (map fst (sort (xs :: event list)))"
  by (rule sorted_fst_of_sorted) simp

lemma collapse_final_rle: "collapse_final xs = rle xs"
proof -
  have "collapse_final xs = rle (sort xs)"
    unfolding collapse_final_def
    by (rule fin_inv_finish [OF fin_inv_foldl [OF sorted_fst_sort] ])
  also have "\<dots> = rle xs"
    by (rule rle_cong [OF net_mset_cong]) simp
  finally show ?thesis .
qed

lemma collapse_final_cong:
  "net xs = net ys \<Longrightarrow> collapse_final xs = collapse_final ys"
  unfolding collapse_final_rle by (rule rle_cong)

lemma less_3_cases: "j < (3::nat) \<Longrightarrow> j = 0 \<or> j = 1 \<or> j = 2"
  by arith

lemma wf_mapD:
  assumes "wf_map m" and "j < 3"
  shows "length (temp_chrName_vec_new m j) = length (chrs m)"
    and "length (chrName_vec_new m j) = length (chrs m)"
    and "length (chrName_vec_final m j) = length (chrs m)"
  using assms less_3_cases [of j] by (auto simp: wf_map_def)

lemma wf_mapI:
  assumes "\<And>j. j < 3 \<Longrightarrow> length (temp_chrName_vec_new m j) = length (chrs m)"
    and "\<And>j. j < 3 \<Longrightarrow> length (chrName_vec_new m j) = length (chrs m)"
    and "\<And>j. j < 3 \<Longrightarrow> length (chrName_vec_final m j) = length (chrs m)"
  shows "wf_map m"
  using assms by (simp add: wf_map_def)

lemma net_collapse_loop:
  "net (collapse_loop loci accum es) p = (if loci = p then accum else 0) + net es p"
proof (induction es arbitrary: loci accum)
  case Nil
  show ?case by simp
next
  case (Cons e es)
  obtain q d where e: "e = (q, d)" by (cases e)
  show ?case
    unfolding e using Cons.IH by auto
qed

lemma net_compact: "net (collapse_loop 0 0 (sort t)) = net t"
proof
  fix p
  have "net (sort t) = net t"
    by (rule net_mset_cong) simp
  then show "net (collapse_loop 0 0 (sort t)) p = net t p"
    by (simp add: net_collapse_loop)
qed

lemma collapse_channel_char:
  assumes "refid + length ts \<le> length nw"
  shows "\<exists>nw'. collapse_channel refid ts nw = Some nw' \<and> length nw' = length nw \<and>
     (\<forall>i<length nw. nw' ! i =
        nw ! i @ (if refid \<le> i \<and> i < refid + length ts \<and> ts ! (i - refid) \<noteq> []
                  then collapse_loop 0 0 (sort (ts ! (i - refid))) else []))"
  using assms
proof (induction ts arbitrary: refid nw)
  case Nil
  show ?case by (intro exI [of _ nw]) auto
next
  case (Cons t ts)
  let ?nw1 = "if t = [] then nw else nw[refid := nw ! refid @ collapse_loop 0 0 (sort t)]"
  from Cons.prems have r: "refid < length nw" and le: "Suc refid + length ts \<le> length ?nw1"
    by simp_all
  from Cons.IH [OF le] obtain nw' where
    run: "collapse_channel (Suc refid) ts ?nw1 = Some nw'" and len: "length nw' = length ?nw1"
    and nth: "\<forall>i<length ?nw1. nw' ! i =
        ?nw1 ! i @ (if Suc refid \<le> i \<and> i < Suc refid + length ts \<and> ts ! (i - Suc refid) \<noteq> []
                  then collapse_loop 0 0 (sort (ts ! (i - Suc refid))) else [])"
    by blast
  have "collapse_channel refid (t # ts) nw = Some nw'"
    using run r by (cases "t = []") simp_all
  moreover have "length nw' = length nw"
    using len by simp
  moreover have "nw' ! i =
        nw ! i @ (if refid \<le> i \<and> i < refid + length (t # ts) \<and> (t # ts) ! (i - refid) \<noteq> []
                  then collapse_loop 0 0 (sort ((t # ts) ! (i - refid))) else [])"
    if i: "i < length nw" for i
  proof (cases "i = refid")
    case True
    with nth i r show ?thesis by (cases "t = []") simp_all
  next
    case False
    have "i - refid = Suc (i - Suc refid)" if "refid \<le> i"
      using that False by simp
    with nth i False show ?thesis
      by (cases "t = []") (auto simp: nth_Cons')
  qed
  ultimately show ?case by blast
qed

lemma sort_and_collapse_temp_alt: "sort_and_collapse_temp = for3 temp_body"
  by (simp add: sort_and_collapse_temp_def)

lemma net_compacted: "net (compacted t n) p = net t p + net n p"
  using net_compact [of t] by (auto simp: compacted_def fun_eq_iff)

lemma temp_body_char:
  assumes wf: "wf_map m" and j: "j < 3"
  shows "\<exists>m'. temp_body j m = Some m' \<and> wf_map m' \<and> chrs m' = chrs m \<and>
     chrName_vec_final m' = chrName_vec_final m \<and> frag_count m' = frag_count m \<and>
     final_is_sorted m' = final_is_sorted m \<and>
     (\<forall>j'. j' \<noteq> j \<longrightarrow> temp_chrName_vec_new m' j' = temp_chrName_vec_new m j' \<and>
                         chrName_vec_new m' j' = chrName_vec_new m j') \<and>
     temp_chrName_vec_new m' j = replicate (length (chrs m)) [] \<and>
     chrName_vec_new m' j =
        map2 compacted (temp_chrName_vec_new m j) (chrName_vec_new m j)"
proof -
  let ?ts = "temp_chrName_vec_new m j" and ?nw = "chrName_vec_new m j"
  note L = wf_mapD [OF wf j]
  have "0 + length ?ts \<le> length ?nw"
    using L by simp
  from collapse_channel_char [OF this] obtain nw' where
    run: "collapse_channel 0 ?ts ?nw = Some nw'" and len: "length nw' = length ?nw"
    and nth: "\<forall>i<length ?nw. nw' ! i =
        ?nw ! i @ (if 0 \<le> i \<and> i < 0 + length ?ts \<and> ?ts ! (i - 0) \<noteq> []
                  then collapse_loop 0 0 (sort (?ts ! (i - 0))) else [])"
    by blast
  let ?m' = "m\<lparr>chrName_vec_new := (chrName_vec_new m)(j := nw'),
                temp_chrName_vec_new := (temp_chrName_vec_new m)(j := map (\<lambda>itChr. []) ?ts)\<rparr>"
  have body: "temp_body j m = Some ?m'"
    by (simp add: temp_body_def run)
  have wf': "wf_map ?m'"
  proof (rule wf_mapI)
    fix j' :: nat assume "j' < 3"
    note L' = wf_mapD [OF wf this]
    show "length (temp_chrName_vec_new ?m' j') = length (chrs ?m')"
      using L L' by simp
    show "length (chrName_vec_new ?m' j') = length (chrs ?m')"
      using L L' len by simp
    show "length (chrName_vec_final ?m' j') = length (chrs ?m')"
      using L' by simp
  qed
  have tmp: "temp_chrName_vec_new ?m' j = replicate (length (chrs m)) []"
    using L by (simp add: map_replicate_const)
  have new: "chrName_vec_new ?m' j = map2 compacted ?ts ?nw"
  proof (rule nth_equalityI)
    show "length (chrName_vec_new ?m' j) = length (map2 compacted ?ts ?nw)"
      using L len by simp
    fix i assume "i < length (chrName_vec_new ?m' j)"
    then have i: "i < length ?nw" using len by simp
    with L have "i < length ?ts" by simp
    with nth i show "chrName_vec_new ?m' j ! i = map2 compacted ?ts ?nw ! i"
      by (simp add: compacted_def)
  qed
  show ?thesis
    using body wf' tmp new by (intro exI [of _ ?m']) simp
qed

lemma sort_and_collapse_temp_char:
  assumes wf: "wf_map m"
  shows "\<exists>m'. sort_and_collapse_temp m = Some m' \<and> wf_map m' \<and> chrs m' = chrs m \<and>
     chrName_vec_final m' = chrName_vec_final m \<and> frag_count m' = frag_count m \<and>
     final_is_sorted m' = final_is_sorted m \<and>
     (\<forall>j<3. temp_chrName_vec_new m' j = replicate (length (chrs m)) [] \<and>
            chrName_vec_new m' j =
              map2 compacted (temp_chrName_vec_new m j) (chrName_vec_new m j))"
proof -
  from temp_body_char [OF wf, of 0] obtain m1 where
    b1: "temp_body 0 m = Some m1" and wf1: "wf_map m1" and c1: "chrs m1 = chrs m"
    and f1: "chrName_vec_final m1 = chrName_vec_final m" "frag_count m1 = frag_count m"
      "final_is_sorted m1 = final_is_sorted m"
    and o1: "\<forall>j'. j' \<noteq> 0 \<longrightarrow> temp_chrName_vec_new m1 j' = temp_chrName_vec_new m j' \<and>
                         chrName_vec_new m1 j' = chrName_vec_new m j'"
    and t1: "temp_chrName_vec_new m1 0 = replicate (length (chrs m)) []"
    and n1: "chrName_vec_new m1 0 = map2 compacted (temp_chrName_vec_new m 0) (chrName_vec_new m 0)"
    by auto
  from temp_body_char [OF wf1, of 1] obtain m2 where
    b2: "temp_body 1 m1 = Some m2" and wf2: "wf_map m2" and c2: "chrs m2 = chrs m1"
    and f2: "chrName_vec_final m2 = chrName_vec_final m1" "frag_count m2 = frag_count m1"
      "final_is_sorted m2 = final_is_sorted m1"
    and o2: "\<forall>j'. j' \<noteq> 1 \<longrightarrow> temp_chrName_vec_new m2 j' = temp_chrName_vec_new m1 j' \<and>
                         chrName_vec_new m2 j' = chrName_vec_new m1 j'"
    and t2: "temp_chrName_vec_new m2 1 = replicate (length (chrs m1)) []"
    and n2: "chrName_vec_new m2 1 = map2 compacted (temp_chrName_vec_new m1 1) (chrName_vec_new m1 1)"
    by auto
  from temp_body_char [OF wf2, of 2] obtain m3 where
    b3: "temp_body 2 m2 = Some m3" and wf3: "wf_map m3" and c3: "chrs m3 = chrs m2"
    and f3: "chrName_vec_final m3 = chrName_vec_final m2" "frag_count m3 = frag_count m2"
      "final_is_sorted m3 = final_is_sorted m2"
    and o3: "\<forall>j'. j' \<noteq> 2 \<longrightarrow> temp_chrName_vec_new m3 j' = temp_chrName_vec_new m2 j' \<and>
                         chrName_vec_new m3 j' = chrName_vec_new m2 j'"
    and t3: "temp_chrName_vec_new m3 2 = replicate (length (chrs m2)) []"
    and n3: "chrName_vec_new m3 2 = map2 compacted (temp_chrName_vec_new m2 2) (chrName_vec_new m2 2)"
    by auto
  have run: "sort_and_collapse_temp m = Some m3"
    by (simp add: sort_and_collapse_temp_alt for3_def b1 b2 [simplified] b3)
  have ch: "temp_chrName_vec_new m3 j = replicate (length (chrs m)) [] \<and>
            chrName_vec_new m3 j = map2 compacted (temp_chrName_vec_new m j) (chrName_vec_new m j)"
    if "j < 3" for j
  proof -
    from that consider "j = 0" | "j = 1" | "j = 2" by arith
    then show ?thesis
    proof cases
      case 1
      with o2 o3 t1 n1 show ?thesis by simp
    next
      case 2
      with o1 o3 t2 n2 c1 show ?thesis by simp
    next
      case 3
      with o1 o2 t3 n3 c1 c2 show ?thesis by simp
    qed
  qed
  show ?thesis
    using run wf3 c1 c2 c3 f1 f2 f3 ch by (intro exI [of _ m3]) simp
qed

lemma final_unit_char:
  assumes wf: "wf_map m" and k: "k < 3 * length (chrs m)"
  shows "\<exists>m'. final_unit m k = Some m' \<and> wf_map m' \<and> chrs m' = chrs m \<and>
     temp_chrName_vec_new m' = temp_chrName_vec_new m \<and> frag_count m' = frag_count m \<and>
     final_is_sorted m' = final_is_sorted m \<and>
     (\<forall>j<3. \<forall>i<length (chrs m).
        chrName_vec_final m' j ! i =
          (if j * length (chrs m) + i = k then collapse_final (chrName_vec_new m j ! i)
           else chrName_vec_final m j ! i) \<and>
        chrName_vec_new m' j ! i =
          (if j * length (chrs m) + i = k then [] else chrName_vec_new m j ! i))"
proof -
  let ?n = "length (chrs m)"
  let ?j = "k div ?n" and ?i = "k mod ?n"
  from k have n: "0 < ?n" by (cases "?n = 0") simp_all
  then have i: "?i < ?n" by simp
  have j: "?j < 3"
    using k n by (simp add: less_mult_imp_div_less mult.commute)
  have sub: "k - ?j * ?n = ?i"
    by (simp add: minus_div_mult_eq_mod)
  note L = wf_mapD [OF wf j]
  let ?m' = "m\<lparr>chrName_vec_final := (chrName_vec_final m)
                  (?j := (chrName_vec_final m ?j)[?i := collapse_final (chrName_vec_new m ?j ! ?i)]),
                chrName_vec_new := (chrName_vec_new m)(?j := (chrName_vec_new m ?j)[?i := [] ])\<rparr>"
  have run: "final_unit m k = Some ?m'"
    unfolding final_unit_def Let_def sub using i L by simp
  have wf': "wf_map ?m'"
  proof (rule wf_mapI)
    fix j' :: nat assume "j' < 3"
    note L' = wf_mapD [OF wf this]
    show "length (temp_chrName_vec_new ?m' j') = length (chrs ?m')"
      using L' by simp
    show "length (chrName_vec_new ?m' j') = length (chrs ?m')"
      using L L' by auto
    show "length (chrName_vec_final ?m' j') = length (chrs ?m')"
      using L L' by auto
  qed
  have idx: "j' * ?n + i' = k \<longleftrightarrow> j' = ?j \<and> i' = ?i" if "i' < ?n" for j' i'
  proof
    assume e: "j' * ?n + i' = k"
    have "(i' + j' * ?n) div ?n = j'" "(i' + j' * ?n) mod ?n = i'"
      using that n by simp_all
    with e have "k div ?n = j'" "k mod ?n = i'"
      by (simp_all add: add.commute)
    then show "j' = ?j \<and> i' = ?i" by simp
  next
    assume "j' = ?j \<and> i' = ?i"
    then show "j' * ?n + i' = k" by simp
  qed
  have ch: "chrName_vec_final ?m' j' ! i' =
          (if j' * ?n + i' = k then collapse_final (chrName_vec_new m j' ! i')
           else chrName_vec_final m j' ! i') \<and>
        chrName_vec_new ?m' j' ! i' =
          (if j' * ?n + i' = k then [] else chrName_vec_new m j' ! i')"
    if "j' < 3" and i': "i' < ?n" for j' i'
  proof (cases "j' = ?j")
    case True
    with idx [OF i', of j'] i' L show ?thesis
      by (cases "i' = ?i") (simp_all add: True)
  next
    case False
    with idx [OF i', of j'] show ?thesis by simp
  qed
  show ?thesis
    using run wf' ch by (intro exI [of _ ?m']) simp
qed

lemma final_loop_char:
  assumes "wf_map m" and "distinct ks" and "\<forall>k\<in>set ks. k < 3 * length (chrs m)"
  shows "\<exists>m'. final_loop ks m = Some m' \<and> wf_map m' \<and> chrs m' = chrs m \<and>
     temp_chrName_vec_new m' = temp_chrName_vec_new m \<and> frag_count m' = frag_count m \<and>
     final_is_sorted m' = final_is_sorted m \<and>
     (\<forall>j<3. \<forall>i<length (chrs m).
        chrName_vec_final m' j ! i =
          (if j * length (chrs m) + i \<in> set ks then collapse_final (chrName_vec_new m j ! i)
           else chrName_vec_final m j ! i) \<and>
        chrName_vec_new m' j ! i =
          (if j * length (chrs m) + i \<in> set ks then [] else chrName_vec_new m j ! i))"
  using assms
proof (induction ks arbitrary: m)
  case Nil
  then show ?case by simp
next
  case (Cons k ks)
  let ?n = "length (chrs m)"
  from Cons.prems have k: "k < 3 * ?n" and notin: "k \<notin> set ks" and dist: "distinct ks"
    by simp_all
  from final_unit_char [OF Cons.prems(1) k] obtain m1 where
    u: "final_unit m k = Some m1" and wf1: "wf_map m1" and c1: "chrs m1 = chrs m"
    and f1: "temp_chrName_vec_new m1 = temp_chrName_vec_new m" "frag_count m1 = frag_count m"
      "final_is_sorted m1 = final_is_sorted m"
    and ch1: "\<forall>j<3. \<forall>i<?n.
        chrName_vec_final m1 j ! i =
          (if j * ?n + i = k then collapse_final (chrName_vec_new m j ! i)
           else chrName_vec_final m j ! i) \<and>
        chrName_vec_new m1 j ! i =
          (if j * ?n + i = k then [] else chrName_vec_new m j ! i)"
    by blast
  have bound: "\<forall>k\<in>set ks. k < 3 * length (chrs m1)"
    using Cons.prems(3) c1 by simp
  from Cons.IH [OF wf1 dist bound] obtain m2 where
    l: "final_loop ks m1 = Some m2" and wf2: "wf_map m2" and c2: "chrs m2 = chrs m1"
    and f2: "temp_chrName_vec_new m2 = temp_chrName_vec_new m1" "frag_count m2 = frag_count m1"
      "final_is_sorted m2 = final_is_sorted m1"
    and ch2: "\<forall>j<3. \<forall>i<length (chrs m1).
        chrName_vec_final m2 j ! i =
          (if j * length (chrs m1) + i \<in> set ks then collapse_final (chrName_vec_new m1 j ! i)
           else chrName_vec_final m1 j ! i) \<and>
        chrName_vec_new m2 j ! i =
          (if j * length (chrs m1) + i \<in> set ks then [] else chrName_vec_new m1 j ! i)"
    by blast
  have run: "final_loop (k # ks) m = Some m2"
    using u l by simp
  have ch: "chrName_vec_final m2 j ! i =
          (if j * ?n + i \<in> set (k # ks) then collapse_final (chrName_vec_new m j ! i)
           else chrName_vec_final m j ! i) \<and>
        chrName_vec_new m2 j ! i =
          (if j * ?n + i \<in> set (k # ks) then [] else chrName_vec_new m j ! i)"
    if j: "j < 3" and i: "i < ?n" for j i
  proof (cases "j * ?n + i = k")
    case True
    with notin ch1 ch2 j i c1 show ?thesis by simp
  next
    case False
    with ch1 ch2 j i c1 show ?thesis by simp
  qed
  show ?case
    using run wf2 c1 c2 f1 f2 ch by (intro exI [of _ m2]) simp
qed

lemma collapse_final_compacted:
  "collapse_final (compacted t n) = collapse_final (t @ n)"
  by (rule collapse_final_cong) (simp add: fun_eq_iff net_compacted)

lemma sort_and_collapse_final_char:
  assumes wf: "wf_map m" and acc: "\<not> final_is_sorted m"
  shows "\<exists>m'. sort_and_collapse_final m = Some m' \<and> wf_map m' \<and> chrs m' = chrs m \<and>
     final_is_sorted m' \<and> frag_count m' = frag_count m \<and>
     (\<forall>j<3. temp_chrName_vec_new m' j = replicate (length (chrs m)) [] \<and>
            chrName_vec_new m' j = replicate (length (chrs m)) [] \<and>
            chrName_vec_final m' j =
              map2 (\<lambda>t n. collapse_final (t @ n)) (temp_chrName_vec_new m j) (chrName_vec_new m j))"
proof -
  let ?n = "length (chrs m)"
  from sort_and_collapse_temp_char [OF wf] obtain m1 where
    t: "sort_and_collapse_temp m = Some m1" and wf1: "wf_map m1" and c1: "chrs m1 = chrs m"
    and f1: "frag_count m1 = frag_count m" "final_is_sorted m1 = final_is_sorted m"
    and ch1: "\<forall>j<3. temp_chrName_vec_new m1 j = replicate ?n [] \<and>
            chrName_vec_new m1 j = map2 compacted (temp_chrName_vec_new m j) (chrName_vec_new m j)"
    by blast
  have "distinct [0..<3 * length (chrs m1)]" and "\<forall>k\<in>set [0..<3 * length (chrs m1)]. k < 3 * length (chrs m1)"
    by simp_all
  from final_loop_char [OF wf1 this] obtain m2 where
    l: "final_loop [0..<3 * length (chrs m1)] m1 = Some m2" and wf2: "wf_map m2"
    and c2: "chrs m2 = chrs m1"
    and f2: "temp_chrName_vec_new m2 = temp_chrName_vec_new m1" "frag_count m2 = frag_count m1"
    and ch2: "\<forall>j<3. \<forall>i<length (chrs m1).
        chrName_vec_final m2 j ! i =
          (if j * length (chrs m1) + i \<in> set [0..<3 * length (chrs m1)]
           then collapse_final (chrName_vec_new m1 j ! i)
           else chrName_vec_final m1 j ! i) \<and>
        chrName_vec_new m2 j ! i =
          (if j * length (chrs m1) + i \<in> set [0..<3 * length (chrs m1)]
           then [] else chrName_vec_new m1 j ! i)"
    by blast
  let ?m' = "m2\<lparr>final_is_sorted := True\<rparr>"
  have run: "sort_and_collapse_final m = Some ?m'"
    using acc t l by (simp add: sort_and_collapse_final_def)
  have wf': "wf_map ?m'"
    using wf2 by (simp add: wf_map_def)
  have inr: "j * ?n + i \<in> set [0..<3 * ?n]" if "j < 3" "i < ?n" for j i
  proof -
    from that have "j * ?n + i < Suc j * ?n" by simp
    also from that have "\<dots> \<le> 3 * ?n" by (intro mult_le_mono1) simp
    finally show ?thesis by simp
  qed
  have ch: "temp_chrName_vec_new ?m' j = replicate ?n [] \<and>
            chrName_vec_new ?m' j = replicate ?n [] \<and>
            chrName_vec_final ?m' j =
              map2 (\<lambda>t n. collapse_final (t @ n)) (temp_chrName_vec_new m j) (chrName_vec_new m j)"
    if j: "j < 3" for j
  proof -
    note L = wf_mapD [OF wf j] and L2 = wf_mapD [OF wf2 j]
    have a: "temp_chrName_vec_new ?m' j = replicate ?n []"
      using f2 ch1 j by simp
    have b: "chrName_vec_new ?m' j = replicate ?n []"
    proof (rule nth_equalityI)
      show "length (chrName_vec_new ?m' j) = length (replicate ?n ([] :: event list))"
        using L2 c1 c2 by simp
      fix i assume "i < length (chrName_vec_new ?m' j)"
      then have i: "i < ?n" using L2 c1 c2 by simp
      with ch2 j c1 inr [OF j i] show "chrName_vec_new ?m' j ! i = replicate ?n [] ! i"
        by simp
    qed
    have c: "chrName_vec_final ?m' j =
        map2 (\<lambda>t n. collapse_final (t @ n)) (temp_chrName_vec_new m j) (chrName_vec_new m j)"
    proof (rule nth_equalityI)
      show "length (chrName_vec_final ?m' j) =
          length (map2 (\<lambda>t n. collapse_final (t @ n)) (temp_chrName_vec_new m j) (chrName_vec_new m j))"
        using L L2 c1 c2 by simp
      fix i assume "i < length (chrName_vec_final ?m' j)"
      then have i: "i < ?n" using L2 c1 c2 by simp
      have "chrName_vec_final ?m' j ! i = collapse_final (chrName_vec_new m1 j ! i)"
        using ch2 j c1 i inr [OF j i] by simp
      also have "chrName_vec_new m1 j ! i =
          compacted (temp_chrName_vec_new m j ! i) (chrName_vec_new m j ! i)"
        using ch1 j i L by simp
      finally show "chrName_vec_final ?m' j ! i =
          map2 (\<lambda>t n. collapse_final (t @ n)) (temp_chrName_vec_new m j) (chrName_vec_new m j) ! i"
        using i L by (simp add: collapse_final_compacted)
    qed
    from a b c show ?thesis by blast
  qed
  show ?thesis
    using run wf' c1 c2 f1 f2 ch by (intro exI [of _ ?m']) simp
qed

lemma append_loop_char:
  assumes "distinct is" and "\<forall>i\<in>set is. i < length a \<and> i < length b"
  shows "\<exists>a'. append_loop is a b = Some a' \<and> length a' = length a \<and>
     (\<forall>i<length a. a' ! i = (if i \<in> set is then a ! i @ b ! i else a ! i))"
  using assms
proof (induction "is" arbitrary: a)
  case Nil
  then show ?case by simp
next
  case (Cons i "is")
  let ?a1 = "a[i := a ! i @ b ! i]"
  from Cons.prems have i: "i < length a" "i < length b" and notin: "i \<notin> set is"
    and dist: "distinct is" and rest: "\<forall>i\<in>set is. i < length ?a1 \<and> i < length b"
    by simp_all
  from Cons.IH [OF dist rest] obtain a' where
    run: "append_loop is ?a1 b = Some a'" and len: "length a' = length ?a1"
    and nth: "\<forall>k<length ?a1. a' ! k = (if k \<in> set is then ?a1 ! k @ b ! k else ?a1 ! k)"
    by blast
  have "append_loop (i # is) a b = Some a'"
    using run i by simp
  moreover have "length a' = length a"
    using len by simp
  moreover have "a' ! k = (if k \<in> set (i # is) then a ! k @ b ! k else a ! k)"
    if "k < length a" for k
    using nth that notin by (cases "k = i") auto
  ultimately show ?case by blast
qed

lemma append_loop_full:
  assumes "length a = n" and "length b = n"
  shows "append_loop [0..<n] a b = Some (map2 (@) a b)"
proof -
  have "distinct [0..<n]" and "\<forall>i\<in>set [0..<n]. i < length a \<and> i < length b"
    using assms by simp_all
  from append_loop_char [OF this] obtain a' where
    run: "append_loop [0..<n] a b = Some a'" and len: "length a' = length a"
    and nth: "\<forall>i<length a. a' ! i = (if i \<in> set [0..<n] then a ! i @ b ! i else a ! i)"
    by blast
  have "a' = map2 (@) a b"
  proof (rule nth_equalityI)
    show "length a' = length (map2 (@) a b)"
      using len assms by simp
    fix i assume "i < length a'"
    with len assms nth show "a' ! i = map2 (@) a b ! i" by simp
  qed
  with run show ?thesis by simp
qed

lemma append_channels_char:
  assumes "\<forall>j<3. length (mine j) = n \<and> length (theirs j) = n"
  shows "append_channels n mine theirs =
     Some (\<lambda>j. if j < 3 then map2 (@) (mine j) (theirs j) else mine j)"
proof -
  have l: "append_loop [0..<n] (mine j) (theirs j) = Some (map2 (@) (mine j) (theirs j))"
    if "j < 3" for j
    using assms that by (intro append_loop_full) simp_all
  have "(mine(0 := map2 (@) (mine 0) (theirs 0), Suc 0 := map2 (@) (mine (Suc 0)) (theirs (Suc 0)),
               2 := map2 (@) (mine 2) (theirs 2)))
      = (\<lambda>j. if j < 3 then map2 (@) (mine j) (theirs j) else mine j)"
  proof (rule ext)
    fix j :: nat
    consider "j = 0" | "j = Suc 0" | "j = 2" | "\<not> j < 3" by arith
    then show "(mine(0 := map2 (@) (mine 0) (theirs 0), Suc 0 := map2 (@) (mine (Suc 0)) (theirs (Suc 0)),
               2 := map2 (@) (mine 2) (theirs 2))) j
      = (if j < 3 then map2 (@) (mine j) (theirs j) else mine j)"
      by cases auto
  qed
  then show ?thesis
    using l [of 0] l [of 1] l [of 2] by (simp add: append_channels_def for3_def)
qed

lemma push_at_char:
  assumes "i < length v"
  shows "push_at v i es = Some (v[i := v ! i @ es])"
  using assms by (simp add: push_at_def list_update_same_conv [THEN iffD2])

lemma push_blocks_char:
  assumes wf: "wf_map m" and ok: "unat (chr_id blocks) < length (chrs m)"
  shows "\<exists>m'. push_blocks blocks m = Some m' \<and> wf_map m' \<and> chrs m' = chrs m \<and>
     chrName_vec_final m' = chrName_vec_final m \<and>
     final_is_sorted m' = final_is_sorted m \<and>
     (\<forall>j<3. \<forall>i<length (chrs m). \<forall>p. cnet m' j i p = cnet m j i p + contrib blocks j i p)"
proof -
  let ?d = "if direction blocks then 1 else 0 :: nat"
  let ?c = "unat (chr_id blocks)" and ?es = "block_events blocks"
  let ?t = "temp_chrName_vec_new m"
  have d: "?d < 3" by simp
  note Ld = wf_mapD [OF wf d] and L2 = wf_mapD [OF wf, of 2, simplified]
  let ?m' = "m\<lparr>temp_chrName_vec_new := ?t(?d := (?t ?d)[?c := ?t ?d ! ?c @ ?es],
                                            2 := (?t 2)[?c := ?t 2 ! ?c @ ?es]),
                frag_count := frag_count m + 1\<rparr>"
  have run: "push_blocks blocks m = Some ?m'"
    unfolding push_blocks_def Let_def
    using push_at_char [of ?c "?t ?d" ?es] push_at_char [of ?c "?t 2" ?es] Ld L2 ok
    by simp
  have wf': "wf_map ?m'"
  proof (rule wf_mapI)
    fix j :: nat assume "j < 3"
    note L = wf_mapD [OF wf this]
    show "length (temp_chrName_vec_new ?m' j) = length (chrs ?m')"
      using L Ld L2 by auto
    show "length (chrName_vec_new ?m' j) = length (chrs ?m')"
      using L by simp
    show "length (chrName_vec_final ?m' j) = length (chrs ?m')"
      using L by simp
  qed
  have ch: "cnet ?m' j i p = cnet m j i p + contrib blocks j i p"
    if j: "j < 3" and i: "i < length (chrs m)" for j i p
  proof -
    note L = wf_mapD [OF wf j]
    show ?thesis
      using L Ld L2 i ok by (auto simp: cnet_def contrib_def)
  qed
  show ?thesis
    using run wf' ch by (intro exI [of _ ?m']) simp
qed

lemma sort_and_collapse_temp_cnet:
  assumes wf: "wf_map m"
  shows "\<exists>m'. sort_and_collapse_temp m = Some m' \<and> wf_map m' \<and> chrs m' = chrs m \<and>
     chrName_vec_final m' = chrName_vec_final m \<and>
     final_is_sorted m' = final_is_sorted m \<and>
     (\<forall>j<3. \<forall>i<length (chrs m). \<forall>p. cnet m' j i p = cnet m j i p)"
proof -
  from sort_and_collapse_temp_char [OF wf] obtain m' where
    run: "sort_and_collapse_temp m = Some m'" and wf': "wf_map m'" and c: "chrs m' = chrs m"
    and f: "chrName_vec_final m' = chrName_vec_final m" "final_is_sorted m' = final_is_sorted m"
    and ch: "\<forall>j<3. temp_chrName_vec_new m' j = replicate (length (chrs m)) [] \<and>
            chrName_vec_new m' j =
              map2 compacted (temp_chrName_vec_new m j) (chrName_vec_new m j)"
    by blast
  have "cnet m' j i p = cnet m j i p" if j: "j < 3" and i: "i < length (chrs m)" for j i p
  proof -
    note L = wf_mapD [OF wf j]
    from ch j i L show ?thesis
      by (simp add: cnet_def net_compacted)
  qed
  with run wf' c f show ?thesis by blast
qed

lemma ProcessBlocks_char:
  assumes wf: "wf_map m" and ok: "unat (chr_id blocks) < length (chrs m)"
  shows "\<exists>m'. ProcessBlocks blocks m = Some m' \<and> wf_map m' \<and> chrs m' = chrs m \<and>
     chrName_vec_final m' = chrName_vec_final m \<and>
     final_is_sorted m' = final_is_sorted m \<and>
     (\<forall>j<3. \<forall>i<length (chrs m). \<forall>p. cnet m' j i p = cnet m j i p + contrib blocks j i p)"
proof -
  from push_blocks_char [OF wf ok] obtain m1 where
    p: "push_blocks blocks m = Some m1" and wf1: "wf_map m1" and c1: "chrs m1 = chrs m"
    and f1: "chrName_vec_final m1 = chrName_vec_final m" "final_is_sorted m1 = final_is_sorted m"
    and ch1: "\<forall>j<3. \<forall>i<length (chrs m). \<forall>p. cnet m1 j i p = cnet m j i p + contrib blocks j i p"
    by blast
  show ?thesis
  proof (cases "frag_count m1 mod 1000000 = 0")
    case False
    then have "ProcessBlocks blocks m = Some m1"
      using p by (simp add: ProcessBlocks_def)
    with wf1 c1 f1 ch1 show ?thesis by blast
  next
    case True
    from sort_and_collapse_temp_cnet [OF wf1] obtain m2 where
      t: "sort_and_collapse_temp m1 = Some m2" and wf2: "wf_map m2" and c2: "chrs m2 = chrs m1"
      and f2: "chrName_vec_final m2 = chrName_vec_final m1" "final_is_sorted m2 = final_is_sorted m1"
      and ch2: "\<forall>j<3. \<forall>i<length (chrs m1). \<forall>p. cnet m2 j i p = cnet m1 j i p"
      by blast
    have "ProcessBlocks blocks m = Some m2"
      using p t True by (simp add: ProcessBlocks_def)
    moreover have "\<forall>j<3. \<forall>i<length (chrs m). \<forall>p. cnet m2 j i p = cnet m j i p + contrib blocks j i p"
      using ch1 ch2 c1 by simp
    ultimately show ?thesis
      using wf2 c1 c2 f1 f2 by (intro exI [of _ m2]) simp
  qed
qed

lemma run_ops_char:
  assumes "wf_map m" and "\<forall>b\<in>set (fragments_of ops). unat (chr_id b) < length (chrs m)"
  shows "\<exists>m'. run_ops ops m = Some m' \<and> wf_map m' \<and> chrs m' = chrs m \<and>
     chrName_vec_final m' = chrName_vec_final m \<and>
     final_is_sorted m' = final_is_sorted m \<and>
     (\<forall>j<3. \<forall>i<length (chrs m). \<forall>p.
        cnet m' j i p = cnet m j i p + (\<Sum>b\<leftarrow>fragments_of ops. contrib b j i p))"
  using assms
proof (induction ops arbitrary: m)
  case Nil
  then show ?case by simp
next
  case (Cons op ops)
  show ?case
  proof (cases op)
    case (Process blocks)
    with Cons.prems have ok: "unat (chr_id blocks) < length (chrs m)" by simp
    from ProcessBlocks_char [OF Cons.prems(1) ok] obtain m1 where
      p: "ProcessBlocks blocks m = Some m1" and wf1: "wf_map m1" and c1: "chrs m1 = chrs m"
      and f1: "chrName_vec_final m1 = chrName_vec_final m" "final_is_sorted m1 = final_is_sorted m"
      and ch1: "\<forall>j<3. \<forall>i<length (chrs m). \<forall>p. cnet m1 j i p = cnet m j i p + contrib blocks j i p"
      by blast
    have "\<forall>b\<in>set (fragments_of ops). unat (chr_id b) < length (chrs m1)"
      using Cons.prems(2) Process c1 by simp
    from Cons.IH [OF wf1 this] obtain m2 where
      r: "run_ops ops m1 = Some m2" and wf2: "wf_map m2" and c2: "chrs m2 = chrs m1"
      and f2: "chrName_vec_final m2 = chrName_vec_final m1" "final_is_sorted m2 = final_is_sorted m1"
      and ch2: "\<forall>j<3. \<forall>i<length (chrs m1). \<forall>p.
        cnet m2 j i p = cnet m1 j i p + (\<Sum>b\<leftarrow>fragments_of ops. contrib b j i p)"
      by blast
    have "run_ops (op # ops) m = Some m2"
      using p r Process by simp
    moreover have "\<forall>j<3. \<forall>i<length (chrs m). \<forall>p.
        cnet m2 j i p = cnet m j i p + (\<Sum>b\<leftarrow>fragments_of (op # ops). contrib b j i p)"
      using ch1 ch2 c1 Process by simp
    ultimately show ?thesis
      using wf2 c1 c2 f1 f2 by (intro exI [of _ m2]) simp
  next
    case Compact
    from sort_and_collapse_temp_cnet [OF Cons.prems(1)] obtain m1 where
      t: "sort_and_collapse_temp m = Some m1" and wf1: "wf_map m1" and c1: "chrs m1 = chrs m"
      and f1: "chrName_vec_final m1 = chrName_vec_final m" "final_is_sorted m1 = final_is_sorted m"
      and ch1: "\<forall>j<3. \<forall>i<length (chrs m). \<forall>p. cnet m1 j i p = cnet m j i p"
      by blast
    have "\<forall>b\<in>set (fragments_of ops). unat (chr_id b) < length (chrs m1)"
      using Cons.prems(2) Compact c1 by simp
    from Cons.IH [OF wf1 this] obtain m2 where
      r: "run_ops ops m1 = Some m2" and wf2: "wf_map m2" and c2: "chrs m2 = chrs m1"
      and f2: "chrName_vec_final m2 = chrName_vec_final m1" "final_is_sorted m2 = final_is_sorted m1"
      and ch2: "\<forall>j<3. \<forall>i<length (chrs m1). \<forall>p.
        cnet m2 j i p = cnet m1 j i p + (\<Sum>b\<leftarrow>fragments_of ops. contrib b j i p)"
      by blast
    have "run_ops (op # ops) m = Some m2"
      using t r Compact by simp
    moreover have "\<forall>j<3. \<forall>i<length (chrs m). \<forall>p.
        cnet m2 j i p = cnet m j i p + (\<Sum>b\<leftarrow>fragments_of (op # ops). contrib b j i p)"
      using ch1 ch2 c1 Compact by simp
    ultimately show ?thesis
      using wf2 c1 c2 f1 f2 by (intro exI [of _ m2]) simp
  qed
qed

lemma push_all_char:
  assumes "wf_map m" and "\<forall>b\<in>set bs. unat (chr_id b) < length (chrs m)"
  shows "\<exists>m'. push_all bs m = Some m' \<and> wf_map m' \<and> chrs m' = chrs m \<and>
     chrName_vec_final m' = chrName_vec_final m \<and>
     final_is_sorted m' = final_is_sorted m \<and>
     (\<forall>j<3. \<forall>i<length (chrs m). \<forall>p.
        cnet m' j i p = cnet m j i p + (\<Sum>b\<leftarrow>bs. contrib b j i p))"
  using assms
proof (induction bs arbitrary: m)
  case Nil
  then show ?case by simp
next
  case (Cons blocks bs)
  then have ok: "unat (chr_id blocks) < length (chrs m)" by simp
  from push_blocks_char [OF Cons.prems(1) ok] obtain m1 where
    p: "push_blocks blocks m = Some m1" and wf1: "wf_map m1" and c1: "chrs m1 = chrs m"
    and f1: "chrName_vec_final m1 = chrName_vec_final m" "final_is_sorted m1 = final_is_sorted m"
    and ch1: "\<forall>j<3. \<forall>i<length (chrs m). \<forall>p. cnet m1 j i p = cnet m j i p + contrib blocks j i p"
    by blast
  have "\<forall>b\<in>set bs. unat (chr_id b) < length (chrs m1)"
    using Cons.prems(2) c1 by simp
  from Cons.IH [OF wf1 this] obtain m2 where
    r: "push_all bs m1 = Some m2" and wf2: "wf_map m2" and c2: "chrs m2 = chrs m1"
    and f2: "chrName_vec_final m2 = chrName_vec_final m1" "final_is_sorted m2 = final_is_sorted m1"
    and ch2: "\<forall>j<3. \<forall>i<length (chrs m1). \<forall>p.
      cnet m2 j i p = cnet m1 j i p + (\<Sum>b\<leftarrow>bs. contrib b j i p)"
    by blast
  have "push_all (blocks # bs) m = Some m2"
    using p r by simp
  moreover have "\<forall>j<3. \<forall>i<length (chrs m). \<forall>p.
      cnet m2 j i p = cnet m j i p + (\<Sum>b\<leftarrow>blocks # bs. contrib b j i p)"
    using ch1 ch2 c1 by simp
  ultimately show ?case
    using wf2 c1 c2 f1 f2 by (intro exI [of _ m2]) simp
qed

lemma final_determined:
  assumes wfa: "wf_map a" and wfb: "wf_map b" and acc: "\<not> final_is_sorted a" "\<not> final_is_sorted b"
    and n: "length (chrs a) = length (chrs b)"
    and eq: "\<forall>j<3. \<forall>i<length (chrs a). \<forall>p. cnet a j i p = cnet b j i p"
  shows "\<exists>a' b'. sort_and_collapse_final a = Some a' \<and> sort_and_collapse_final b = Some b' \<and>
     (\<forall>j<3. chrName_vec_final a' j = chrName_vec_final b' j)"
proof -
  from sort_and_collapse_final_char [OF wfa acc(1)] obtain a' where
    ra: "sort_and_collapse_final a = Some a'"
    and fa: "\<forall>j<3. chrName_vec_final a' j =
        map2 (\<lambda>t n. collapse_final (t @ n)) (temp_chrName_vec_new a j) (chrName_vec_new a j)"
    by blast
  from sort_and_collapse_final_char [OF wfb acc(2)] obtain b' where
    rb: "sort_and_collapse_final b = Some b'"
    and fb: "\<forall>j<3. chrName_vec_final b' j =
        map2 (\<lambda>t n. collapse_final (t @ n)) (temp_chrName_vec_new b j) (chrName_vec_new b j)"
    by blast
  have "chrName_vec_final a' j = chrName_vec_final b' j" if j: "j < 3" for j
  proof -
    note La = wf_mapD [OF wfa j] and Lb = wf_mapD [OF wfb j]
    have "map2 (\<lambda>t n. collapse_final (t @ n)) (temp_chrName_vec_new a j) (chrName_vec_new a j)
        = map2 (\<lambda>t n. collapse_final (t @ n)) (temp_chrName_vec_new b j) (chrName_vec_new b j)"
    proof (rule nth_equalityI)
      show "length (map2 (\<lambda>t n. collapse_final (t @ n)) (temp_chrName_vec_new a j) (chrName_vec_new a j))
          = length (map2 (\<lambda>t n. collapse_final (t @ n)) (temp_chrName_vec_new b j) (chrName_vec_new b j))"
        using La Lb n by simp
      fix i
      assume "i < length (map2 (\<lambda>t n. collapse_final (t @ n)) (temp_chrName_vec_new a j)
          (chrName_vec_new a j))"
      then have i: "i < length (chrs a)" using La by simp
      have "net (temp_chrName_vec_new a j ! i @ chrName_vec_new a j ! i)
          = net (temp_chrName_vec_new b j ! i @ chrName_vec_new b j ! i)"
        using eq j i by (simp add: fun_eq_iff cnet_def)
      then have "collapse_final (temp_chrName_vec_new a j ! i @ chrName_vec_new a j ! i)
          = collapse_final (temp_chrName_vec_new b j ! i @ chrName_vec_new b j ! i)"
        by (rule collapse_final_cong)
      then show "map2 (\<lambda>t n. collapse_final (t @ n)) (temp_chrName_vec_new a j) (chrName_vec_new a j) ! i
          = map2 (\<lambda>t n. collapse_final (t @ n)) (temp_chrName_vec_new b j) (chrName_vec_new b j) ! i"
        using i La Lb n by simp
    qed
    with fa fb j show ?thesis by simp
  qed
  with ra rb show ?thesis by blast
qed

lemma run_canonical_single [simp]: "run_canonical [seg]"
  by (simp add: run_canonical_def)

lemma run_canonical_snoc:
  assumes "run_canonical (xs @ [(p, d)])" and "p < q" and "d \<noteq> e"
  shows "run_canonical (xs @ [(p, d), (q, e)])"
proof -
  from assms(1) have s: "sorted_wrt (<) (map fst xs)" and b: "\<forall>x\<in>set xs. fst x < p"
    and a: "distinct_adj (map snd (xs @ [(p, d)]))"
    by (auto simp: run_canonical_def sorted_wrt_append)
  have "\<forall>x\<in>set xs. fst x < q"
    using b assms(2) by auto
  with s b assms(2) have "sorted_wrt (<) (map fst (xs @ [(p, d), (q, e)]))"
    by (auto simp: sorted_wrt_append)
  moreover have "distinct_adj (map snd (xs @ [(p, d)]) @ [e])"
    unfolding distinct_adj_append_iff using a assms(3) by simp
  then have "distinct_adj (map snd (xs @ [(p, d), (q, e)]))"
    by simp
  ultimately show ?thesis
    by (simp add: run_canonical_def)
qed

lemma walk_inv_step:
  assumes inv: "walk_inv s" and le: "fst s \<le> p"
  shows "walk_inv (final_step s (p, d)) \<and> fst (final_step s (p, d)) = p"
proof -
  obtain loci old_loci depth old_depth dest where s: "s = (loci, old_loci, depth, old_depth, dest)"
    by (cases s)
  from inv s have can: "run_canonical (dest @ [(old_loci, old_depth)])"
    and alt: "old_loci < loci \<or> (loci = 0 \<and> old_loci = 0 \<and> depth = old_depth \<and> dest = [])"
    by (simp_all add: walk_inv_def)
  from le s have lp: "loci \<le> p" by simp
  show ?thesis
  proof (cases "p = loci")
    case True
    show ?thesis
    proof (cases "p = 0")
      case p0: True
      with True alt have "old_loci = 0" "dest = []" by auto
      with True p0 s show ?thesis by (simp add: walk_inv_def)
    next
      case False
      with True alt have "old_loci < loci" by auto
      with True False s can show ?thesis by (simp add: walk_inv_def)
    qed
  next
    case False
    with lp have lt: "loci < p" by simp
    then have p0: "p \<noteq> 0" by auto
    show ?thesis
    proof (cases "depth = old_depth")
      case True
      from alt lt have "old_loci < p" by auto
      with True False p0 s can show ?thesis by (simp add: walk_inv_def)
    next
      case ne: False
      with alt have ol: "old_loci < loci" by auto
      from ne have "old_depth \<noteq> depth" by simp
      from run_canonical_snoc [OF can ol this]
      have "run_canonical ((dest @ [(old_loci, old_depth)]) @ [(loci, depth)])" by simp
      with ne False p0 s lt show ?thesis by (simp add: walk_inv_def)
    qed
  qed
qed

lemma walk_inv_foldl:
  assumes "walk_inv s" and "sorted (map fst es)" and "\<forall>e\<in>set es. fst s \<le> fst e"
  shows "walk_inv (foldl final_step s es)"
  using assms
proof (induction es arbitrary: s)
  case Nil
  then show ?case by simp
next
  case (Cons e es)
  obtain p d where e: "e = (p, d)" by (cases e)
  from Cons.prems e have "fst s \<le> p" by simp
  from walk_inv_step [OF Cons.prems(1) this, of d]
  have inv: "walk_inv (final_step s e)" and at: "fst (final_step s e) = p"
    using e by simp_all
  from Cons.prems(2) e have "sorted (map fst es)" and "\<forall>x\<in>set es. p \<le> fst x"
    by simp_all
  with Cons.IH [OF inv] at show ?case by simp
qed

lemma walk_inv_finish:
  assumes "walk_inv s"
  shows "run_canonical (final_finish s)"
proof -
  obtain loci old_loci depth old_depth dest where s: "s = (loci, old_loci, depth, old_depth, dest)"
    by (cases s)
  from assms s have can: "run_canonical (dest @ [(old_loci, old_depth)])"
    and alt: "old_loci < loci \<or> (loci = 0 \<and> old_loci = 0 \<and> depth = old_depth \<and> dest = [])"
    by (simp_all add: walk_inv_def)
  show ?thesis
  proof (cases "depth = old_depth")
    case True
    with s can show ?thesis by simp
  next
    case False
    with alt have ol: "old_loci < loci" by auto
    from False have "old_depth \<noteq> depth" by simp
    from run_canonical_snoc [OF can ol this] False s show ?thesis by simp
  qed
qed

lemma collapse_final_canonical: "run_canonical (collapse_final itChr)"
proof -
  have "walk_inv (0, 0, 0, 0, [])"
    by (simp add: walk_inv_def)
  moreover have "\<forall>e\<in>set (sort itChr). fst (0 :: u32, 0 :: u32, 0 :: int, 0 :: int, [] :: event list) \<le> fst e"
    by simp
  ultimately have "walk_inv (foldl final_step (0, 0, 0, 0, []) (sort itChr))"
    using sorted_fst_sort [of itChr] by (intro walk_inv_foldl)
  then show ?thesis
    unfolding collapse_final_def by (rule walk_inv_finish)
qed

text \<open>
  C2.  Finalising a well-formed map that is still accumulating succeeds, and for every channel
  and chromosome the run-length sequence it produces has strictly increasing positions and no
  two consecutive segments of equal depth.
\<close>

theorem finalized_sequences_canonical:
  assumes "wf_map m" and "\<not> final_is_sorted m" and "j < 3" and "i < length (chrs m)"
  shows "\<exists>m'. sort_and_collapse_final m = Some m' \<and> final_is_sorted m' \<and>
     sorted_wrt (<) (map fst (chrName_vec_final m' j ! i)) \<and>
     distinct_adj (map snd (chrName_vec_final m' j ! i))"
proof -
  from sort_and_collapse_final_char [OF assms(1,2)] obtain m' where
    r: "sort_and_collapse_final m = Some m'" and f: "final_is_sorted m'"
    and ch: "\<forall>j<3. chrName_vec_final m' j =
        map2 (\<lambda>t n. collapse_final (t @ n)) (temp_chrName_vec_new m j) (chrName_vec_new m j)"
    by blast
  note L = wf_mapD [OF assms(1,3)]
  have "chrName_vec_final m' j ! i =
      collapse_final (temp_chrName_vec_new m j ! i @ chrName_vec_new m j ! i)"
    using ch assms(3,4) L by simp
  then have "run_canonical (chrName_vec_final m' j ! i)"
    by (simp add: collapse_final_canonical)
  with r f show ?thesis
    by (auto simp: run_canonical_def)
qed

theorem finalized_sequences_canonical_witness:
  "wf_map ex_accumulating \<and> \<not> final_is_sorted ex_accumulating \<and>
   (\<exists>m'. sort_and_collapse_final ex_accumulating = Some m' \<and> final_is_sorted m' \<and>
      chrName_vec_final m' 2 ! 0 = [(0, 0), (100, 1), (150, 2), (200, 0)] \<and>
      sorted_wrt (<) (map fst (chrName_vec_final m' 2 ! 0)) \<and>
      distinct_adj (map snd (chrName_vec_final m' 2 ! 0)))"
proof -
  have h1: "wf_map ex_accumulating"
    by (simp add: wf_map_def ex_accumulating_def ex_chrmap_def)
  have h2: "\<not> final_is_sorted ex_accumulating"
    by (simp add: ex_accumulating_def)
  have h3: "(2 :: nat) < 3" "0 < length (chrs ex_accumulating)"
    by (simp_all add: ex_accumulating_def ex_chrmap_def)
  have v: "map_option (\<lambda>m. chrName_vec_final m 2 ! 0) (sort_and_collapse_final ex_accumulating)
      = Some [(0, 0), (100, 1), (150, 2), (200, 0)]"
    by code_simp
  from finalized_sequences_canonical [OF h1 h2 h3] v h1 h2 show ?thesis
    by auto
qed

lemma hist_total_add: "hist_total (hist_add k v h) = hist_total h + v"
  by (induction h) (auto simp: hist_total_def)

lemma hist_total_insert_zero: "hist_total (hist_insert k 0 h) = hist_total h"
  by (induction h) (auto simp: hist_total_def)

lemma cov_walk_done: "\<not> cursor < end \<Longrightarrow> cov_walk end hist depth cursor it_pos = hist"
  by (subst cov_walk.simps) simp

lemma cov_walk_last:
  assumes "cursor < end" and "dropWhile (\<lambda>e. fst e \<le> cursor) it_pos = []"
  shows "cov_walk end hist depth cursor it_pos = hist_add (word_of_int depth) (end - cursor) hist"
  by (subst cov_walk.simps) (simp add: assms)

lemma cov_walk_next:
  assumes "cursor < end" and "dropWhile (\<lambda>e. fst e \<le> cursor) it_pos = it_pos'"
    and "it_pos' \<noteq> []"
  shows "cov_walk end hist depth cursor it_pos =
     cov_walk end (hist_add (word_of_int depth) (min (fst (hd it_pos')) end - cursor) hist)
       (snd (hd it_pos')) (fst (hd it_pos')) it_pos'"
  by (subst cov_walk.simps) (simp add: assms Let_def)

lemma span_split:
  fixes cursor p :: u32
  shows "min p end - cursor + (if p < end then end - p else 0) = end - cursor"
proof (cases "p < end")
  case True
  then have "min p end = p" by simp
  with True show ?thesis by simp
next
  case False
  then have "min p end = end" by simp
  with False show ?thesis by simp
qed

lemma cov_walk_total:
  "hist_total (cov_walk end hist depth cursor it_pos) =
     hist_total hist + (if cursor < end then end - cursor else 0)"
proof (induction "end" hist depth cursor it_pos rule: cov_walk.induct)
  case (1 "end" hist depth cursor it_pos)
  let ?it = "dropWhile (\<lambda>e. fst e \<le> cursor) it_pos"
  show ?case
  proof (cases "cursor < end")
    case False
    then show ?thesis by (simp add: cov_walk_done)
  next
    case lt: True
    show ?thesis
    proof (cases "?it = []")
      case True
      show ?thesis
        unfolding cov_walk_last [OF lt True] hist_total_add using lt by simp
    next
      case False
      let ?p = "fst (hd ?it)"
      have "hist_total (cov_walk end hist depth cursor it_pos) =
          hist_total (hist_add (word_of_int depth) (min ?p end - cursor) hist)
            + (if ?p < end then end - ?p else 0)"
        unfolding cov_walk_next [OF lt refl False] by (rule "1.IH" [OF lt refl False])
      also have "\<dots> = hist_total hist + (min ?p end - cursor + (if ?p < end then end - ?p else 0))"
        unfolding hist_total_add by (simp only: add.assoc)
      also have "\<dots> = hist_total hist + (end - cursor)"
        unfolding span_split ..
      finally show ?thesis using lt by simp
    qed
  qed
qed

text \<open>
  C5 (as the code has it).  A chromosome index outside the per-chromosome array is no error
  and adds no base: the call only makes sure that a depth-0 bin exists, with count 0 when it
  is new.  For a chromosome in range whose sequence has no segment after \<open>start\<close>, the call
  adds \<open>end - start\<close> to the depth-0 bin.
\<close>

theorem updateCoverageHist_absent:
  "(length (chrName_vec_final m dir) \<le> unat refid \<longrightarrow>
      updateCoverageHist m hist start end dir refid = hist_insert 0 0 hist \<and>
      hist_total (updateCoverageHist m hist start end dir refid) = hist_total hist) \<and>
   (unat refid < length (chrName_vec_final m dir) \<and>
    (\<forall>e\<in>set (chrName_vec_final m dir ! unat refid). fst e \<le> start) \<longrightarrow>
      updateCoverageHist m hist start end dir refid = hist_add 0 (end - start) hist)"
proof (intro conjI impI)
  assume "length (chrName_vec_final m dir) \<le> unat refid"
  then show "updateCoverageHist m hist start end dir refid = hist_insert 0 0 hist"
    by (simp add: updateCoverageHist_def)
  then show "hist_total (updateCoverageHist m hist start end dir refid) = hist_total hist"
    by (simp add: hist_total_insert_zero)
next
  let ?it_chr = "chrName_vec_final m dir ! unat refid"
  assume a: "unat refid < length (chrName_vec_final m dir) \<and> (\<forall>e\<in>set ?it_chr. fst e \<le> start)"
  then have "takeWhile (\<lambda>e. \<not> start < fst e) ?it_chr = ?it_chr"
    unfolding takeWhile_eq_all_conv by (simp add: not_less)
  then have "upper_bound ?it_chr start = length ?it_chr"
    by (simp only: upper_bound_def)
  with a show "updateCoverageHist m hist start end dir refid = hist_add 0 (end - start) hist"
    by (simp add: updateCoverageHist_def Let_def)
qed

theorem updateCoverageHist_absent_witness:
  "length (chrName_vec_final ex_finalized 2) \<le> unat (1 :: u32) \<and>
   updateCoverageHist ex_finalized [(3, 7)] 10 20 2 1 = [(0, 0), (3, 7)] \<and>
   unat (0 :: u32) < length (chrName_vec_final ex_finalized 2) \<and>
   updateCoverageHist ex_finalized [(3, 7)] 300 320 2 0 = [(0, 20), (3, 7)]"
proof -
  have h1: "length (chrName_vec_final ex_finalized 2) \<le> unat (1 :: u32)"
    by (simp add: ex_finalized_def)
  have h2: "unat (0 :: u32) < length (chrName_vec_final ex_finalized 2)"
    by (simp add: ex_finalized_def)
  have h3: "\<forall>e\<in>set (chrName_vec_final ex_finalized 2 ! unat (0 :: u32)). fst e \<le> 300"
    by (simp add: ex_finalized_def)
  from updateCoverageHist_absent [where m = ex_finalized and dir = 2 and refid = 1
      and hist = "[(3, 7)]" and start = 10 and ?end = 20] h1
  have a: "updateCoverageHist ex_finalized [(3, 7)] 10 20 2 1 = [(0, 0), (3, 7)]"
    by simp
  from updateCoverageHist_absent [where m = ex_finalized and dir = 2 and refid = 0
      and hist = "[(3, 7)]" and start = 300 and ?end = 320] h2 h3
  have b: "updateCoverageHist ex_finalized [(3, 7)] 300 320 2 0 = [(0, 20), (3, 7)]"
    by simp
  from h1 h2 a b show ?thesis by blast
qed

theorem updateCoverageHist_absent_counterexample:
  "lookup_refID (chrs ex_finalized) ''chrX'' = 1 \<and>
   updateCoverageHist ex_finalized [] 10 20 2 (lookup_refID (chrs ex_finalized) ''chrX'') = [(0, 0)] \<and>
   updateCoverageHist ex_finalized [] 10 20 2 (lookup_refID (chrs ex_finalized) ''chrX'')
     \<noteq> hist_add 0 (20 - 10) []"
  by code_simp

lemma ChrMapUpdate_fresh:
  assumes "chrs e = []"
  shows "wf_map (ChrMapUpdate chrmap e)" and "chrs (ChrMapUpdate chrmap e) = chrmap"
    and "final_is_sorted (ChrMapUpdate chrmap e) = final_is_sorted e"
    and "j < 3 \<Longrightarrow> i < length chrmap \<Longrightarrow> cnet (ChrMapUpdate chrmap e) j i p = 0"
  using assms by (simp_all add: ChrMapUpdate_def Let_def wf_map_def cnet_def)

lemma Combine_accumulating:
  assumes wfa: "wf_map a" and wfb: "wf_map b" and n: "length (chrs a) = length (chrs b)"
    and acc: "\<not> final_is_sorted a" "\<not> final_is_sorted b"
  shows "\<exists>a' b'. Combine a b = Some (a', b') \<and> wf_map a' \<and> chrs a' = chrs a \<and>
     \<not> final_is_sorted a' \<and>
     (\<forall>j<3. \<forall>i<length (chrs a). \<forall>p. cnet a' j i p = cnet a j i p + cnet b j i p)"
proof -
  from sort_and_collapse_temp_char [OF wfa] obtain s where
    rs: "sort_and_collapse_temp a = Some s" and wfs: "wf_map s" and cs: "chrs s = chrs a"
    and fs: "final_is_sorted s = final_is_sorted a"
    and chs: "\<forall>j<3. temp_chrName_vec_new s j = replicate (length (chrs a)) [] \<and>
            chrName_vec_new s j = map2 compacted (temp_chrName_vec_new a j) (chrName_vec_new a j)"
    by blast
  from sort_and_collapse_temp_char [OF wfb] obtain c where
    rc: "sort_and_collapse_temp b = Some c" and wfc: "wf_map c" and cc: "chrs c = chrs b"
    and fc: "final_is_sorted c = final_is_sorted b"
    and chc: "\<forall>j<3. temp_chrName_vec_new c j = replicate (length (chrs b)) [] \<and>
            chrName_vec_new c j = map2 compacted (temp_chrName_vec_new b j) (chrName_vec_new b j)"
    by blast
  let ?v = "\<lambda>j. if j < 3 then map2 (@) (chrName_vec_new s j) (chrName_vec_new c j)
                 else chrName_vec_new s j"
  have "\<forall>j<3. length (chrName_vec_new s j) = length (chrs s) \<and>
               length (chrName_vec_new c j) = length (chrs s)"
    using wf_mapD(2) [OF wfs] wf_mapD(2) [OF wfc] cs cc n by simp
  then have app: "append_channels (length (chrs s)) (chrName_vec_new s) (chrName_vec_new c) = Some ?v"
    by (rule append_channels_char)
  let ?a' = "s\<lparr>chrName_vec_new := ?v\<rparr>"
  have run: "Combine a b = Some (?a', c)"
    using rs rc fs fc acc app by (simp add: Combine_def)
  have wf': "wf_map ?a'"
  proof (rule wf_mapI)
    fix j :: nat assume j: "j < 3"
    note Ls = wf_mapD [OF wfs j] and Lc = wf_mapD [OF wfc j]
    show "length (temp_chrName_vec_new ?a' j) = length (chrs ?a')"
      using Ls by simp
    show "length (chrName_vec_new ?a' j) = length (chrs ?a')"
      using Ls Lc j cs cc n by simp
    show "length (chrName_vec_final ?a' j) = length (chrs ?a')"
      using Ls by simp
  qed
  have ch: "cnet ?a' j i p = cnet a j i p + cnet b j i p"
    if j: "j < 3" and i: "i < length (chrs a)" for j i p
  proof -
    note La = wf_mapD [OF wfa j] and Lb = wf_mapD [OF wfb j]
    show ?thesis
      using chs chc j i n La Lb by (simp add: cnet_def net_compacted)
  qed
  show ?thesis
    using run wf' cs fs acc ch by (intro exI [of _ ?a'] exI [of _ c]) simp
qed

lemma contrib_sum_mset:
  assumes "mset fc = mset fa + mset fb"
  shows "(\<Sum>b\<leftarrow>fc. contrib b j i p) = (\<Sum>b\<leftarrow>fa. contrib b j i p) + (\<Sum>b\<leftarrow>fb. contrib b j i p)"
proof -
  have "(\<Sum>b\<leftarrow>fc. contrib b j i p) = sum_mset (image_mset (\<lambda>b. contrib b j i p) (mset fc))"
    by (simp only: sum_mset_sum_list [symmetric] mset_map)
  also have "\<dots> = sum_mset (image_mset (\<lambda>b. contrib b j i p) (mset fa))
      + sum_mset (image_mset (\<lambda>b. contrib b j i p) (mset fb))"
    unfolding assms by simp
  also have "\<dots> = (\<Sum>b\<leftarrow>fa. contrib b j i p) + (\<Sum>b\<leftarrow>fb. contrib b j i p)"
    by (simp only: sum_mset_sum_list [symmetric] mset_map)
  finally show ?thesis .
qed

lemma fragments_of_Process [simp]: "fragments_of (map Process bs) = bs"
  by (induction bs) simp_all

lemma ingest_char:
  assumes "wf_map m" and "\<forall>b\<in>set bs. unat (chr_id b) < length (chrs m)"
  shows "\<exists>m'. ingest bs m = Some m' \<and> wf_map m' \<and> chrs m' = chrs m \<and>
     final_is_sorted m' = final_is_sorted m \<and>
     (\<forall>j<3. \<forall>i<length (chrs m). \<forall>p.
        cnet m' j i p = cnet m j i p + (\<Sum>b\<leftarrow>bs. contrib b j i p))"
proof -
  have "\<forall>b\<in>set (fragments_of (map Process bs)). unat (chr_id b) < length (chrs m)"
    using assms(2) by simp
  from run_ops_char [OF assms(1) this] show ?thesis
    unfolding ingest_def by auto
qed

text \<open>
  C1.  Start from a freshly set up map.  Ingest the fragments \<open>fa\<close> into one copy and
  \<open>fb\<close> into another (both stay in accumulating mode), combine them and finalise; ingest
  the union \<open>fc\<close> of the two fragment collections, in any order, into a third copy and
  finalise.  Every step succeeds, and the finalised run-length sequences are the same for every
  channel and chromosome.
\<close>

theorem merge_then_finalize_is_direct:
  assumes fresh: "chrs e = []" "\<not> final_is_sorted e"
    and valid: "\<forall>b\<in>set fa \<union> set fb. unat (chr_id b) < length chrmap"
    and union: "mset fc = mset fa + mset fb"
  shows "\<exists>a b a' b' merged direct finalized.
     ingest fa (ChrMapUpdate chrmap e) = Some a \<and>
     ingest fb (ChrMapUpdate chrmap e) = Some b \<and>
     \<not> final_is_sorted a \<and> \<not> final_is_sorted b \<and>
     Combine a b = Some (a', b') \<and>
     sort_and_collapse_final a' = Some merged \<and>
     ingest fc (ChrMapUpdate chrmap e) = Some direct \<and>
     sort_and_collapse_final direct = Some finalized \<and>
     (\<forall>j<3. chrName_vec_final merged j = chrName_vec_final finalized j)"
proof -
  let ?m0 = "ChrMapUpdate chrmap e"
  note F = ChrMapUpdate_fresh [OF fresh(1), where chrmap = chrmap]
  have acc0: "\<not> final_is_sorted ?m0" using F(3) fresh(2) by simp
  have va: "\<forall>b\<in>set fa. unat (chr_id b) < length (chrs ?m0)"
    and vb: "\<forall>b\<in>set fb. unat (chr_id b) < length (chrs ?m0)"
    using valid F(2) by auto
  have "set_mset (mset fc) = set_mset (mset fa + mset fb)"
    using union by simp
  then have "set fc = set fa \<union> set fb" by simp
  with valid F(2) have vc: "\<forall>b\<in>set fc. unat (chr_id b) < length (chrs ?m0)"
    by simp
  from ingest_char [OF F(1) va] obtain a where
    ra: "ingest fa ?m0 = Some a" and wfa: "wf_map a" and ca: "chrs a = chrs ?m0"
    and fa: "final_is_sorted a = final_is_sorted ?m0"
    and na: "\<forall>j<3. \<forall>i<length (chrs ?m0). \<forall>p.
        cnet a j i p = cnet ?m0 j i p + (\<Sum>b\<leftarrow>fa. contrib b j i p)"
    by blast
  from ingest_char [OF F(1) vb] obtain b where
    rb: "ingest fb ?m0 = Some b" and wfb: "wf_map b" and cb: "chrs b = chrs ?m0"
    and fb: "final_is_sorted b = final_is_sorted ?m0"
    and nb: "\<forall>j<3. \<forall>i<length (chrs ?m0). \<forall>p.
        cnet b j i p = cnet ?m0 j i p + (\<Sum>b\<leftarrow>fb. contrib b j i p)"
    by blast
  from ingest_char [OF F(1) vc] obtain c where
    rc: "ingest fc ?m0 = Some c" and wfc: "wf_map c" and cc: "chrs c = chrs ?m0"
    and fc: "final_is_sorted c = final_is_sorted ?m0"
    and nc: "\<forall>j<3. \<forall>i<length (chrs ?m0). \<forall>p.
        cnet c j i p = cnet ?m0 j i p + (\<Sum>b\<leftarrow>fc. contrib b j i p)"
    by blast
  have acc: "\<not> final_is_sorted a" "\<not> final_is_sorted b" "\<not> final_is_sorted c"
    using fa fb fc acc0 by simp_all
  have n: "length (chrs a) = length (chrs b)" using ca cb by simp
  from Combine_accumulating [OF wfa wfb n acc(1,2)] obtain a' b' where
    rcomb: "Combine a b = Some (a', b')" and wfa': "wf_map a'" and ca': "chrs a' = chrs a"
    and fa': "\<not> final_is_sorted a'"
    and na': "\<forall>j<3. \<forall>i<length (chrs a). \<forall>p. cnet a' j i p = cnet a j i p + cnet b j i p"
    by blast
  have eq: "\<forall>j<3. \<forall>i<length (chrs a'). \<forall>p. cnet a' j i p = cnet c j i p"
  proof (intro allI impI)
    fix j i p assume j: "j < (3::nat)" and "i < length (chrs a')"
    then have i: "i < length chrmap" using ca' ca F(2) by simp
    have z: "cnet ?m0 j i p = 0" by (rule F(4) [OF j i])
    have "cnet a' j i p = (\<Sum>b\<leftarrow>fa. contrib b j i p) + (\<Sum>b\<leftarrow>fb. contrib b j i p)"
      using na' na nb j i ca F(2) z by simp
    also have "\<dots> = (\<Sum>b\<leftarrow>fc. contrib b j i p)"
      by (rule contrib_sum_mset [OF union, symmetric])
    also have "\<dots> = cnet c j i p"
      using nc j i F(2) z by simp
    finally show "cnet a' j i p = cnet c j i p" .
  qed
  have n': "length (chrs a') = length (chrs c)" using ca' ca cc by simp
  from final_determined [OF wfa' wfc fa' acc(3) n' eq] obtain merged finalized where
    "sort_and_collapse_final a' = Some merged" "sort_and_collapse_final c = Some finalized"
    "\<forall>j<3. chrName_vec_final merged j = chrName_vec_final finalized j"
    by blast
  with ra rb rc rcomb acc show ?thesis by blast
qed

theorem merge_then_finalize_is_direct_witness:
  "chrs ex_empty = [] \<and> \<not> final_is_sorted ex_empty \<and>
   (\<exists>a b a' b' merged direct finalized.
     ingest [ex_fragA] (ChrMapUpdate ex_chrmap ex_empty) = Some a \<and>
     ingest [ex_fragB] (ChrMapUpdate ex_chrmap ex_empty) = Some b \<and>
     Combine a b = Some (a', b') \<and>
     sort_and_collapse_final a' = Some merged \<and>
     ingest [ex_fragB, ex_fragA] (ChrMapUpdate ex_chrmap ex_empty) = Some direct \<and>
     sort_and_collapse_final direct = Some finalized \<and>
     chrName_vec_final finalized 2 = [ [(0, 0), (100, 1), (150, 2), (200, 0)] ] \<and>
     chrName_vec_final merged 0 = chrName_vec_final finalized 0 \<and>
     chrName_vec_final merged 1 = chrName_vec_final finalized 1 \<and>
     chrName_vec_final merged 2 = chrName_vec_final finalized 2)"
proof -
  let ?m = "ChrMapUpdate ex_chrmap ex_empty"
  have h1: "chrs ex_empty = []" "\<not> final_is_sorted ex_empty"
    by (simp_all add: ex_empty_def)
  have h2: "\<forall>b\<in>set [ex_fragA] \<union> set [ex_fragB]. unat (chr_id b) < length ex_chrmap"
    by (simp add: ex_chrmap_def ex_fragA_def ex_fragB_def)
  have h3: "mset [ex_fragB, ex_fragA] = mset [ex_fragA] + mset [ex_fragB]"
    by simp
  have v: "map_option (\<lambda>m. chrName_vec_final m 2)
      (ingest [ex_fragB, ex_fragA] ?m \<bind> sort_and_collapse_final)
      = Some [ [(0, 0), (100, 1), (150, 2), (200, 0)] ]"
    by code_simp
  from merge_then_finalize_is_direct [OF h1 h2 h3] obtain a b a' b' merged direct finalized where
    r1: "ingest [ex_fragA] ?m = Some a" and r2: "ingest [ex_fragB] ?m = Some b"
    and r3: "Combine a b = Some (a', b')" and r4: "sort_and_collapse_final a' = Some merged"
    and r5: "ingest [ex_fragB, ex_fragA] ?m = Some direct"
    and r6: "sort_and_collapse_final direct = Some finalized"
    and r7: "\<forall>j<3. chrName_vec_final merged j = chrName_vec_final finalized j"
    by blast
  have "map_option (\<lambda>m. chrName_vec_final m 2) (Some finalized)
      = Some [ [(0, 0), (100, 1), (150, 2), (200, 0)] ]"
    using v unfolding r5 Option.bind.simps r6 .
  then have vf: "chrName_vec_final finalized 2 = [ [(0, 0), (100, 1), (150, 2), (200, 0)] ]"
    by (simp only: option.map option.inject)
  from r7 have e: "chrName_vec_final merged 0 = chrName_vec_final finalized 0"
    "chrName_vec_final merged 1 = chrName_vec_final finalized 1"
    "chrName_vec_final merged 2 = chrName_vec_final finalized 2"
    by simp_all
  from h1 r1 r2 r3 r4 r5 r6 e vf show ?thesis
    by blast
qed

text \<open>
  C3.  For every run of ingests over a well-formed accumulating map, with calls of
  \<^verbatim>\<open>sort_and_collapse_temp\<close> at any points of the run (besides the ones \<^verbatim>\<open>ProcessBlocks\<close>
  makes itself), finalising gives the same run-length sequences, and the same results of
  every histogram query, as ingesting the same fragments without any compaction and finalising.
\<close>

theorem compaction_is_transparent:
  assumes wf: "wf_map m" and acc: "\<not> final_is_sorted m"
    and valid: "\<forall>b\<in>set (fragments_of ops). unat (chr_id b) < length (chrs m)"
  shows "\<exists>m1 compacted_run m2 plain_run.
     run_ops ops m = Some m1 \<and> sort_and_collapse_final m1 = Some compacted_run \<and>
     push_all (fragments_of ops) m = Some m2 \<and> sort_and_collapse_final m2 = Some plain_run \<and>
     (\<forall>j<3. chrName_vec_final compacted_run j = chrName_vec_final plain_run j \<and>
        (\<forall>hist start end refid.
           updateCoverageHist compacted_run hist start end j refid =
           updateCoverageHist plain_run hist start end j refid))"
proof -
  from run_ops_char [OF wf valid] obtain m1 where
    r1: "run_ops ops m = Some m1" and wf1: "wf_map m1" and c1: "chrs m1 = chrs m"
    and f1: "final_is_sorted m1 = final_is_sorted m"
    and n1: "\<forall>j<3. \<forall>i<length (chrs m). \<forall>p.
        cnet m1 j i p = cnet m j i p + (\<Sum>b\<leftarrow>fragments_of ops. contrib b j i p)"
    by blast
  from push_all_char [OF wf valid] obtain m2 where
    r2: "push_all (fragments_of ops) m = Some m2" and wf2: "wf_map m2" and c2: "chrs m2 = chrs m"
    and f2: "final_is_sorted m2 = final_is_sorted m"
    and n2: "\<forall>j<3. \<forall>i<length (chrs m). \<forall>p.
        cnet m2 j i p = cnet m j i p + (\<Sum>b\<leftarrow>fragments_of ops. contrib b j i p)"
    by blast
  have eq: "\<forall>j<3. \<forall>i<length (chrs m1). \<forall>p. cnet m1 j i p = cnet m2 j i p"
    using n1 n2 c1 by simp
  have "\<not> final_is_sorted m1" "\<not> final_is_sorted m2" "length (chrs m1) = length (chrs m2)"
    using f1 f2 acc c1 c2 by simp_all
  from final_determined [OF wf1 wf2 this eq] obtain x y where
    fx: "sort_and_collapse_final m1 = Some x" and fy: "sort_and_collapse_final m2 = Some y"
    and same: "\<forall>j<3. chrName_vec_final x j = chrName_vec_final y j"
    by blast
  have "updateCoverageHist x hist start end j refid = updateCoverageHist y hist start end j refid"
    if "j < 3" for j hist start "end" refid
    using same that by (simp add: updateCoverageHist_def)
  with r1 r2 fx fy same show ?thesis by blast
qed

theorem compaction_is_transparent_witness:
  "wf_map (ChrMapUpdate ex_chrmap ex_empty) \<and>
   (\<exists>m1 compacted_run m2 plain_run.
     run_ops [Process ex_fragA, Compact, Process ex_fragB, Compact] (ChrMapUpdate ex_chrmap ex_empty)
       = Some m1 \<and>
     sort_and_collapse_final m1 = Some compacted_run \<and>
     push_all [ex_fragA, ex_fragB] (ChrMapUpdate ex_chrmap ex_empty) = Some m2 \<and>
     sort_and_collapse_final m2 = Some plain_run \<and>
     chrName_vec_final compacted_run 2 = [ [(0, 0), (100, 1), (150, 2), (200, 0)] ] \<and>
     chrName_vec_final plain_run 2 = [ [(0, 0), (100, 1), (150, 2), (200, 0)] ] \<and>
     updateCoverageHist compacted_run [] 100 200 2 0 = updateCoverageHist plain_run [] 100 200 2 0)"
proof -
  let ?m = "ChrMapUpdate ex_chrmap ex_empty"
  let ?ops = "[Process ex_fragA, Compact, Process ex_fragB, Compact]"
  have h1: "wf_map ?m"
    by (simp add: wf_map_def ChrMapUpdate_def Let_def ex_empty_def ex_chrmap_def)
  have h2: "\<not> final_is_sorted ?m"
    by (simp add: ChrMapUpdate_def Let_def ex_empty_def)
  have fo: "fragments_of ?ops = [ex_fragA, ex_fragB]"
    by simp
  have h3: "\<forall>b\<in>set (fragments_of ?ops). unat (chr_id b) < length (chrs ?m)"
    unfolding fo
    by (simp add: ChrMapUpdate_def Let_def ex_empty_def ex_chrmap_def ex_fragA_def ex_fragB_def)
  have v: "map_option (\<lambda>m. chrName_vec_final m 2) (run_ops ?ops ?m \<bind> sort_and_collapse_final)
      = Some [ [(0, 0), (100, 1), (150, 2), (200, 0)] ]"
    by code_simp
  from compaction_is_transparent [OF h1 h2 h3] obtain m1 x m2 y where
    r1: "run_ops ?ops ?m = Some m1" and r2: "sort_and_collapse_final m1 = Some x"
    and r3: "push_all (fragments_of ?ops) ?m = Some m2" and r4: "sort_and_collapse_final m2 = Some y"
    and same: "\<forall>j<3. chrName_vec_final x j = chrName_vec_final y j \<and>
        (\<forall>hist start end refid.
           updateCoverageHist x hist start end j refid = updateCoverageHist y hist start end j refid)"
    by blast
  have "map_option (\<lambda>m. chrName_vec_final m 2) (Some x) = Some [ [(0, 0), (100, 1), (150, 2), (200, 0)] ]"
    using v unfolding r1 Option.bind.simps r2 .
  then have vx: "chrName_vec_final x 2 = [ [(0, 0), (100, 1), (150, 2), (200, 0)] ]"
    by (simp only: option.map option.inject)
  have two: "(2 :: nat) < 3" by simp
  from same two have sx: "chrName_vec_final x 2 = chrName_vec_final y 2"
    and su: "updateCoverageHist x [] 100 200 2 0 = updateCoverageHist y [] 100 200 2 0"
    by blast+
  from vx sx have vy: "chrName_vec_final y 2 = [ [(0, 0), (100, 1), (150, 2), (200, 0)] ]"
    by (simp only:)
  from h1 r1 r2 r3 [unfolded fo] r4 vx vy su show ?thesis
    by blast
qed

lemma Combine_finalized_char:
  assumes wfs: "wf_map self" and wfc: "wf_map child"
    and n: "length (chrs self) = length (chrs child)"
    and fin: "final_is_sorted self \<or> final_is_sorted child"
  shows "\<exists>s c. sort_and_collapse_temp self = Some s \<and> sort_and_collapse_temp child = Some c \<and>
     Combine self child =
       Some (if final_is_sorted self \<and> final_is_sorted child
             then s\<lparr>chrName_vec_final :=
                      (\<lambda>j. if j < 3 then map2 (@) (chrName_vec_final s j) (chrName_vec_final c j)
                           else chrName_vec_final s j),
                    final_is_sorted := False\<rparr>
             else s, c)"
proof -
  from sort_and_collapse_temp_char [OF wfs] obtain s where
    rs: "sort_and_collapse_temp self = Some s" and wf1: "wf_map s" and cs: "chrs s = chrs self"
    and fs: "final_is_sorted s = final_is_sorted self"
    by blast
  from sort_and_collapse_temp_char [OF wfc] obtain c where
    rc: "sort_and_collapse_temp child = Some c" and wf2: "wf_map c" and cc: "chrs c = chrs child"
    and fc: "final_is_sorted c = final_is_sorted child"
    by blast
  have "\<forall>j<3. length (chrName_vec_final s j) = length (chrs s) \<and>
               length (chrName_vec_final c j) = length (chrs s)"
    using wf_mapD(3) [OF wf1] wf_mapD(3) [OF wf2] cs cc n by simp
  then have app: "append_channels (length (chrs s)) (chrName_vec_final s) (chrName_vec_final c) =
      Some (\<lambda>j. if j < 3 then map2 (@) (chrName_vec_final s j) (chrName_vec_final c j)
                else chrName_vec_final s j)"
    by (rule append_channels_char)
  have "Combine self child =
       Some (if final_is_sorted self \<and> final_is_sorted child
             then s\<lparr>chrName_vec_final :=
                      (\<lambda>j. if j < 3 then map2 (@) (chrName_vec_final s j) (chrName_vec_final c j)
                           else chrName_vec_final s j),
                    final_is_sorted := False\<rparr>
             else s, c)"
    using rs rc fs fc fin app by (auto simp: Combine_def)
  with rs rc show ?thesis by blast
qed

lemma hist_mass_add:
  assumes "hist_mass h + unat v < 2 ^ 32"
  shows "hist_mass (hist_add k v h) = hist_mass h + unat v"
  using assms
proof (induction h)
  case Nil
  then show ?case by simp
next
  case (Cons e h)
  obtain k' c where e: "e = (k', c)" by (cases e)
  from Cons.prems e have "unat c + unat v < 2 ^ 32" and "hist_mass h + unat v < 2 ^ 32"
    by simp_all
  then have "unat (c + v) = unat c + unat v" and "hist_mass (hist_add k v h) = hist_mass h + unat v"
    using Cons.IH by (simp_all add: unat_word_ariths)
  with e show ?case by simp
qed

lemma span_split_unat:
  fixes cursor p :: u32
  assumes "cursor < p" and "cursor < end"
  shows "unat (min p end - cursor) + (if p < end then unat (end - p) else 0) = unat (end - cursor)"
proof (cases "p < end")
  case True
  then have "min p end = p" by simp
  moreover have "unat (p - cursor) = unat p - unat cursor"
    "unat (end - p) = unat end - unat p" "unat (end - cursor) = unat end - unat cursor"
    using assms True by (simp_all add: unat_sub word_le_nat_alt word_less_nat_alt)
  moreover have "unat cursor < unat p" "unat p < unat end"
    using assms True by (simp_all add: word_less_nat_alt)
  ultimately show ?thesis using True by simp
next
  case False
  then have "min p end = end" by simp
  with False show ?thesis by simp
qed

lemma cov_walk_mass:
  assumes "hist_mass hist + (if cursor < end then unat (end - cursor) else 0) < 2 ^ 32"
  shows "hist_mass (cov_walk end hist depth cursor it_pos) =
     hist_mass hist + (if cursor < end then unat (end - cursor) else 0)"
  using assms
proof (induction "end" hist depth cursor it_pos rule: cov_walk.induct)
  case (1 "end" hist depth cursor it_pos)
  let ?it = "dropWhile (\<lambda>e. fst e \<le> cursor) it_pos"
  show ?case
  proof (cases "cursor < end")
    case False
    then show ?thesis by (simp add: cov_walk_done)
  next
    case lt: True
    with "1.prems" have bound: "hist_mass hist + unat (end - cursor) < 2 ^ 32" by simp
    show ?thesis
    proof (cases "?it = []")
      case True
      show ?thesis
        unfolding cov_walk_last [OF lt True] using lt hist_mass_add [OF bound] by simp
    next
      case False
      let ?p = "fst (hd ?it)"
      let ?h = "hist_add (word_of_int depth) (min ?p end - cursor) hist"
      have "\<not> ?p \<le> cursor"
        using hd_dropWhile [OF False] by simp
      then have cp: "cursor < ?p" by simp
      note split = span_split_unat [OF cp lt]
      have b1: "hist_mass hist + unat (min ?p end - cursor) < 2 ^ 32"
        using bound split by linarith
      have h1: "hist_mass ?h = hist_mass hist + unat (min ?p end - cursor)"
        by (rule hist_mass_add [OF b1])
      have b2: "hist_mass ?h + (if ?p < end then unat (end - ?p) else 0) < 2 ^ 32"
        using bound split h1 by linarith
      have "hist_mass (cov_walk end hist depth cursor it_pos) =
          hist_mass ?h + (if ?p < end then unat (end - ?p) else 0)"
        unfolding cov_walk_next [OF lt refl False] by (rule "1.IH" [OF lt refl False b2])
      also have "\<dots> = hist_mass hist + unat (end - cursor)"
        using h1 split by linarith
      finally show ?thesis using lt by simp
    qed
  qed
qed

text \<open>
  C4.  For a chromosome index within the per-chromosome array of the queried channel and a
  range with \<open>start < end\<close>, one call of \<^verbatim>\<open>updateCoverageHist\<close> increases the total count
  of the histogram by exactly \<open>end - start\<close>: as the code sums the counts, in 32-bit
  arithmetic, and as unbounded numbers whenever the new total fits 32 bits.
\<close>

theorem updateCoverageHist_adds_span:
  assumes "start < end" and "unat refid < length (chrName_vec_final m dir)"
  shows "hist_total (updateCoverageHist m hist start end dir refid) = hist_total hist + (end - start)
     \<and> (hist_mass hist + unat (end - start) < 2 ^ 32 \<longrightarrow>
          hist_mass (updateCoverageHist m hist start end dir refid)
            = hist_mass hist + unat (end - start))"
proof -
  have "hist_total (updateCoverageHist m hist start end dir refid) = hist_total hist + (end - start)"
    using assms by (simp add: updateCoverageHist_def Let_def hist_total_add cov_walk_total)
  moreover have "hist_mass (updateCoverageHist m hist start end dir refid)
            = hist_mass hist + unat (end - start)"
    if "hist_mass hist + unat (end - start) < 2 ^ 32"
  proof -
    from that assms(1)
    have b: "hist_mass hist + (if start < end then unat (end - start) else 0) < 2 ^ 32"
      by simp
    show ?thesis
      using assms that cov_walk_mass [OF b] by (simp add: updateCoverageHist_def Let_def hist_mass_add)
  qed
  ultimately show ?thesis by blast
qed

theorem updateCoverageHist_adds_span_witness:
  "(90 :: u32) < 250 \<and> unat (0 :: u32) < length (chrName_vec_final ex_finalized 2) \<and>
   updateCoverageHist ex_finalized [] 90 250 2 0 = [(0, 60), (1, 50), (2, 50)] \<and>
   hist_total (updateCoverageHist ex_finalized [] 90 250 2 0) = 160 \<and>
   hist_mass (updateCoverageHist ex_finalized [] 90 250 2 0) = 160"
proof -
  have h1: "(90 :: u32) < 250" by simp
  have h2: "unat (0 :: u32) < length (chrName_vec_final ex_finalized 2)"
    by (simp add: ex_finalized_def)
  have v: "updateCoverageHist ex_finalized [] 90 250 2 0 = [(0, 60), (1, 50), (2, 50)]"
    by code_simp
  from updateCoverageHist_adds_span [OF h1 h2, of "[]"] h1 h2 v show ?thesis
    by (simp add: hist_total_def)
qed

lemma ProcessBlocks_periodic_compaction_example:
  "map_option (\<lambda>m. (temp_chrName_vec_new m 2, chrName_vec_new m 2))
     (ProcessBlocks ex_fragA (ex_accumulating\<lparr>frag_count := 999999\<rparr>))
   = Some ([ [] ], [ [(0, 0), (100, 1), (100, 1), (150, 1), (200, - 3)] ])"
  by code_simp

text \<open>
  C7.  \<^verbatim>\<open>Combine\<close> after finalisation is required to fail; the code has no such check
  (lines 630-649) and returns normally.  On a finalised map whose query over positions 90 to 250
  gives the histogram 0:60, 1:50, 2:50, combined with a finalised map: the call succeeds, the
  two run-length sequences are concatenated in \<^verbatim>\<open>chrName_vec_final\<close>, the delta buffer stays
  empty and the finalised flag is cleared; the next \<^verbatim>\<open>sort_and_collapse_final\<close> succeeds too,
  rebuilds from the empty delta buffer, and leaves the sequence \<open>(0, 0)\<close>: the same query now
  gives 0:160, all coverage is lost.  Combined with a map still accumulating, the call succeeds
  as well and neither the finalised sequences nor the delta buffer of \<^verbatim>\<open>*this\<close> receive
  anything of the child.
\<close>

theorem Combine_finalized_proceeds_silently:
  "final_is_sorted ex_finalized \<and>
   updateCoverageHist ex_finalized [] 90 250 2 0 = [(0, 60), (1, 50), (2, 50)] \<and>
   Combine ex_finalized ex_finalized \<noteq> None \<and>
   \<not> final_is_sorted (fst (the (Combine ex_finalized ex_finalized))) \<and>
   chrName_vec_final (fst (the (Combine ex_finalized ex_finalized))) 2 =
     [ [(0, 0), (100, 1), (150, 2), (200, 0), (0, 0), (100, 1), (150, 2), (200, 0)] ] \<and>
   chrName_vec_new (fst (the (Combine ex_finalized ex_finalized))) 2 = [ [] ] \<and>
   sort_and_collapse_final (fst (the (Combine ex_finalized ex_finalized))) \<noteq> None \<and>
   final_is_sorted (the (sort_and_collapse_final (fst (the (Combine ex_finalized ex_finalized))))) \<and>
   chrName_vec_final
     (the (sort_and_collapse_final (fst (the (Combine ex_finalized ex_finalized))))) 2 = [ [(0, 0)] ] \<and>
   updateCoverageHist
     (the (sort_and_collapse_final (fst (the (Combine ex_finalized ex_finalized)))))
     [] 90 250 2 0 = [(0, 160)] \<and>
   Combine ex_finalized ex_accumulating \<noteq> None \<and>
   final_is_sorted (fst (the (Combine ex_finalized ex_accumulating))) \<and>
   chrName_vec_final (fst (the (Combine ex_finalized ex_accumulating))) 2 =
     [ [(0, 0), (100, 1), (150, 2), (200, 0)] ] \<and>
   chrName_vec_new (fst (the (Combine ex_finalized ex_accumulating))) 2 = [ [] ]"
  by code_simp

end
